theory Spec2Isabelle
  imports Main "HOL-Library.Word"
begin

section \<open>The query request contract (\<^verbatim>\<open>Req\<close>, package main)\<close>

text \<open>
  \<^verbatim>\<open>Req\<close> is the struct of lines 8-23. The \<^verbatim>\<open>uint32\<close> fields are 32-bit words, the
  \<^verbatim>\<open>int\<close> field \<^verbatim>\<open>archive\<close> is an integer. The type \<^verbatim>\<open>consolidation.Consolidator\<close> is
  declared in another package; it is the type parameter \<open>'c\<close>.
\<close>

record 'c Req =
  key :: string
  from' :: "32 word"
  to' :: "32 word"
  minPoints :: "32 word"
  maxPoints :: "32 word"
  consolidator :: 'c
  archive :: int
  rawInterval :: "32 word"
  archInterval :: "32 word"
  outInterval :: "32 word"
  aggNum :: "32 word"

definition NewReq :: "string \<Rightarrow> 32 word \<Rightarrow> 32 word \<Rightarrow> 32 word \<Rightarrow> 32 word \<Rightarrow> 'c \<Rightarrow> 'c Req" where
  "NewReq k f t minP maxP c =
     \<lparr> key = k, from' = f, to' = t, minPoints = minP, maxPoints = maxP, consolidator = c,
       archive = - 2, rawInterval = 0, archInterval = 0, outInterval = 0, aggNum = 0 \<rparr>"

text \<open>
  The comment on the field \<^verbatim>\<open>archive\<close> documents its values: "-1 means original data,
  0 last agg level, 1 2nd last, etc.".
\<close>

definition archive_documented :: "int \<Rightarrow> bool" where
  "archive_documented a = (- 1 \<le> a)"

text \<open>
  \<^verbatim>\<open>%d\<close> of an unsigned value: its decimal digits, most significant first.
\<close>

definition digit :: "nat \<Rightarrow> char" where
  "digit d = ''0123456789'' ! d"

function decimal :: "nat \<Rightarrow> string" where
  "decimal n = (if n < 10 then [digit n] else decimal (n div 10) @ [digit (n mod 10)])"
  by pat_completeness auto
termination
  by (relation "measure (\<lambda>n. n)") auto

declare decimal.simps [simp del]

text \<open>
  \<^verbatim>\<open>String\<close> (lines 41-43). The timestamp formatter \<^verbatim>\<open>TS\<close> and the \<^verbatim>\<open>%s\<close> rendering of
  the consolidator are defined elsewhere and are parameters. The sixth argument of
  the format is \<^verbatim>\<open>r.to-r.from-1\<close>, a \<^verbatim>\<open>uint32\<close> expression; it is named \<open>span\<close> here.
\<close>

definition span :: "'c Req \<Rightarrow> 32 word" where
  "span r = to' r - from' r - 1"

definition String :: "(32 word \<Rightarrow> string) \<Rightarrow> ('c \<Rightarrow> string) \<Rightarrow> 'c Req \<Rightarrow> string" where
  "String TS show_c r =
     key r @ '' '' @ decimal (unat (from' r)) @ '' - '' @ decimal (unat (to' r))
       @ '' ('' @ TS (from' r) @ '' - '' @ TS (to' r) @ '') span:'' @ decimal (unat (span r))
       @ ''s. '' @ decimal (unat (minPoints r)) @ '' <= points <= ''
       @ decimal (unat (maxPoints r)) @ ''. '' @ show_c (consolidator r)"

section \<open>The definition cache (package defcache)\<close>

subsection \<open>Data of the packages \<^verbatim>\<open>schema\<close>, \<^verbatim>\<open>idx\<close> and \<^verbatim>\<open>metricdef\<close>\<close>

text \<open>
  Modelled from the spec: the structs \<^verbatim>\<open>schema.MetricDefinition\<close> and
  \<^verbatim>\<open>schema.MetricData\<close>, whose declarations are not among the sources. A
  definition has an external id, a tenant (\<^verbatim>\<open>OrgId\<close>), a hierarchical name, a
  last-update timestamp and series metadata that the cache never looks at (\<open>'m\<close>).
  A data point carries the same identification and its own timestamp \<^verbatim>\<open>Time\<close>. The
  spec gives the timestamps as epoch seconds; they are taken as Go's \<^verbatim>\<open>int64\<close>, so
  that \<^verbatim>\<open>metric.Time-21600\<close> wraps around and \<^verbatim>\<open><\<close> compares signed values.
\<close>

record 'm MetricDefinition =
  def_Id :: string
  def_OrgId :: int
  def_Name :: string
  def_LastUpdate :: "64 word"
  def_Meta :: 'm

record 'm MetricData =
  md_Id :: string
  md_OrgId :: int
  md_Name :: string
  md_Time :: "64 word"
  md_Meta :: 'm

text \<open>
  Modelled from the spec: \<^verbatim>\<open>schema.MetricDefinitionFromMetricData\<close>, which is not among
  the sources. It builds the definition of the series a data point belongs to; its
  last-update is the timestamp of the data point.
\<close>

definition MetricDefinitionFromMetricData :: "'m MetricData \<Rightarrow> 'm MetricDefinition" where
  "MetricDefinitionFromMetricData metric =
     \<lparr> def_Id = md_Id metric, def_OrgId = md_OrgId metric, def_Name = md_Name metric,
       def_LastUpdate = md_Time metric, def_Meta = md_Meta metric \<rparr>"

text \<open>
  Modelled from the spec: the pattern index \<^verbatim>\<open>idx.Idx\<close> with \<^verbatim>\<open>idx.New\<close>, \<^verbatim>\<open>GetOrAdd\<close>
  and \<^verbatim>\<open>AddRef\<close>; package \<^verbatim>\<open>idx\<close> is not among the sources. \<^verbatim>\<open>GetOrAdd\<close> returns the
  identifier of a (tenant, name) pair seen before and otherwise allocates the next
  identifier, counting from 0. The index is kept as the list of the pairs in the
  order of their allocation, so that identifier \<open>i\<close> was allocated for the pair at
  position \<open>i\<close>. \<^verbatim>\<open>AddRef\<close> is cumulative: the index keeps every call. The trigram
  postings, matching and pruning of the index are left out.
\<close>

record Idx =
  names :: "(int \<times> string) list"
  refs :: "(int \<times> nat) list"

definition idx_New :: Idx where
  "idx_New = \<lparr> names = [], refs = [] \<rparr>"

fun index_of :: "'a \<Rightarrow> 'a list \<Rightarrow> nat option" where
  "index_of x [] = None"
| "index_of x (y # ys) = (if x = y then Some 0 else map_option Suc (index_of x ys))"

definition GetOrAdd :: "Idx \<Rightarrow> int \<Rightarrow> string \<Rightarrow> nat \<times> Idx" where
  "GetOrAdd ix org name =
     (case index_of (org, name) (names ix) of
        Some i \<Rightarrow> (i, ix)
      | None \<Rightarrow> (length (names ix), ix\<lparr>names := names ix @ [(org, name)]\<rparr>))"

definition AddRef :: "Idx \<Rightarrow> int \<Rightarrow> nat \<Rightarrow> Idx" where
  "AddRef ix org i = ix\<lparr>refs := refs ix @ [(org, i)]\<rparr>"

text \<open>
  The durable store is reached through the interface \<^verbatim>\<open>metricdef.Defs\<close>, of which the
  cache calls \<^verbatim>\<open>GetMetrics\<close> and \<^verbatim>\<open>IndexMetric\<close>. Both are parameters: functions on
  a store state \<open>'s\<close> of any kind. An \<^verbatim>\<open>error\<close> is \<open>None\<close> for \<^verbatim>\<open>nil\<close> and otherwise
  carries its message.
\<close>

record ('m, 's) Defs =
  GetMetrics :: "string \<Rightarrow> 's \<Rightarrow> ('m MetricDefinition list \<times> string \<times> string option) \<times> 's"
  IndexMetric :: "'m MetricDefinition \<Rightarrow> 's \<Rightarrow> string option \<times> 's"

datatype log_entry =
  LogError nat string "string list"
| LogDebug string "string list"

subsection \<open>The cache and its state\<close>

text \<open>
  \<^verbatim>\<open>DefCache\<close> (lines 84-90) with what its methods change besides: the state of the
  store behind \<^verbatim>\<open>defsStore\<close>, the package-level counters \<^verbatim>\<open>metricsToEsOK\<close> and
  \<^verbatim>\<open>metricsToEsFail\<close> (lines 62-63), and the lines written to the log. The timers
  only record durations and are left out. The lock is not a field here: each
  function below that the source runs between \<^verbatim>\<open>Lock\<close> and \<^verbatim>\<open>Unlock\<close> is one atomic
  state transformer.
\<close>

record ('m, 's) DefCache =
  defs :: "'m MetricDefinition list"
  ById :: "string \<rightharpoonup> nat"
  ByKey :: Idx
  defsStore :: 's
  metricsToEsOK :: nat
  metricsToEsFail :: nat
  logged :: "log_entry list"

datatype panic = IndexOutOfRange

text \<open>\<^verbatim>\<open>addToES\<close> (lines 211-224).\<close>

definition addToES ::
  "('m, 's) Defs \<Rightarrow> 'm MetricDefinition \<Rightarrow> ('m, 's) DefCache \<Rightarrow> ('m, 's) DefCache" where
  "addToES ds mdef dc =
     (case IndexMetric ds mdef (defsStore dc) of
        (Some err, st) \<Rightarrow>
          dc\<lparr> defsStore := st,
              logged := logged dc @ [LogError 3 ''couldn't index to ES %s: %s'' [def_Id mdef, err]],
              metricsToEsFail := metricsToEsFail dc + 1 \<rparr>
      | (None, st) \<Rightarrow>
          dc\<lparr> defsStore := st, metricsToEsOK := metricsToEsOK dc + 1 \<rparr>)"

text \<open>
  The four statements that index and store one definition: lines 140-143 in
  \<^verbatim>\<open>Backfill\<close>, and the same four at lines 203-206 in \<^verbatim>\<open>Add\<close>.
\<close>

definition index_and_append ::
  "'m MetricDefinition \<Rightarrow> ('m, 's) DefCache \<Rightarrow> ('m, 's) DefCache" where
  "index_and_append d dc =
     (case GetOrAdd (ByKey dc) (def_OrgId d) (def_Name d) of
        (i, ix) \<Rightarrow>
          dc\<lparr> ByKey := AddRef ix (def_OrgId d) i,
              ById := (ById dc)(def_Id d \<mapsto> i),
              defs := defs dc @ [d] \<rparr>)"

text \<open>
  The closure \<^verbatim>\<open>add\<close> of \<^verbatim>\<open>Backfill\<close> (lines 135-147); it updates the local \<^verbatim>\<open>total\<close>
  and the cache.
\<close>

definition add ::
  "'m MetricDefinition list \<Rightarrow> nat \<times> ('m, 's) DefCache \<Rightarrow> nat \<times> ('m, 's) DefCache" where
  "add met tdc =
     (if length met > 0
      then (fst tdc + length met, fold index_and_append met (snd tdc))
      else tdc)"

text \<open>
  \<^verbatim>\<open>Backfill\<close> (lines 133-163). The loop \<^verbatim>\<open>for scroll_id != ""\<close> runs as long as the
  store hands out a cursor, so it is a partial function: \<open>None\<close> is a run that never
  returns.
\<close>

partial_function (option) Backfill_loop ::
  "('m, 's) Defs \<Rightarrow> string \<Rightarrow> nat \<times> ('m, 's) DefCache \<Rightarrow> ('m, 's) DefCache option" where
  "Backfill_loop ds scroll_id tdc =
     (if scroll_id \<noteq> []
      then
        (case GetMetrics ds scroll_id (defsStore (snd tdc)) of
           ((met, scroll_id', err), st) \<Rightarrow>
             (case err of
                Some e \<Rightarrow>
                  Some ((snd tdc)\<lparr> defsStore := st,
                          logged := logged (snd tdc)
                            @ [LogError 3 ''Could not backfill from ES: %s'' [e]] \<rparr>)
              | None \<Rightarrow>
                  Backfill_loop ds scroll_id' (add met (fst tdc, (snd tdc)\<lparr>defsStore := st\<rparr>))))
      else
        Some ((snd tdc)\<lparr> logged := logged (snd tdc)
                @ [LogDebug ''backfilled %d metric definitions'' [decimal (fst tdc)]] \<rparr>))"

definition Backfill :: "('m, 's) Defs \<Rightarrow> ('m, 's) DefCache \<Rightarrow> ('m, 's) DefCache option" where
  "Backfill ds dc =
     (case GetMetrics ds [] (defsStore dc) of
        ((met, scroll_id, err), st) \<Rightarrow>
          (case err of
             Some e \<Rightarrow>
               Some (dc\<lparr> defsStore := st,
                       logged := logged dc @ [LogError 3 ''Could not backfill from ES: %s'' [e]] \<rparr>)
           | None \<Rightarrow> Backfill_loop ds scroll_id (add met (0, dc\<lparr>defsStore := st\<rparr>))))"

text \<open>
  \<^verbatim>\<open>New\<close> (lines 92-111): fresh counters, an empty cache, then \<^verbatim>\<open>Backfill\<close>. The
  goroutine \<^verbatim>\<open>Prune\<close> only drops postings of the index and is left out.
\<close>

definition empty_cache :: "'s \<Rightarrow> ('m, 's) DefCache" where
  "empty_cache st =
     \<lparr> defs = [], ById = Map.empty, ByKey = idx_New, defsStore = st,
       metricsToEsOK = 0, metricsToEsFail = 0, logged = [] \<rparr>"

definition New :: "('m, 's) Defs \<Rightarrow> 's \<Rightarrow> ('m, 's) DefCache option" where
  "New ds st = Backfill ds (empty_cache st)"

text \<open>
  The staleness test \<^verbatim>\<open>LastUpdate < metric.Time-21600\<close> of lines 177 and 185, on
  signed 64-bit integers.
\<close>

definition stale :: "'m MetricDefinition \<Rightarrow> 'm MetricData \<Rightarrow> bool" where
  "stale mdef metric = word_sless (def_LastUpdate mdef) (md_Time metric - 21600)"

text \<open>
  \<^verbatim>\<open>Add\<close> (lines 167-209) holds the lock four times. The two sections under the
  exclusive lock are functions of their own: \<open>Add_update\<close> is lines 183-189 and
  \<open>Add_create\<close> is lines 195-207. Reading \<^verbatim>\<open>dc.defs[id]\<close> beyond the end of the slice
  is a run-time panic.
\<close>

definition Add_update ::
  "('m, 's) Defs \<Rightarrow> 'm MetricData \<Rightarrow> nat \<Rightarrow> 'm MetricDefinition \<Rightarrow> ('m, 's) DefCache
     \<Rightarrow> panic + ('m, 's) DefCache" where
  "Add_update ds metric i mdef dc =
     (if i < length (defs dc)
      then
        (let old = defs dc ! i in
         if stale old metric
         then (let dc1 = addToES ds mdef dc in Inr (dc1\<lparr>defs := (defs dc1)[i := mdef]\<rparr>))
         else Inr dc)
      else Inl IndexOutOfRange)"

definition Add_create ::
  "('m, 's) Defs \<Rightarrow> 'm MetricData \<Rightarrow> 'm MetricDefinition \<Rightarrow> ('m, 's) DefCache
     \<Rightarrow> ('m, 's) DefCache" where
  "Add_create ds metric mdef dc =
     (case ById dc (md_Id metric) of
        Some i \<Rightarrow> dc
      | None \<Rightarrow> index_and_append mdef (addToES ds mdef dc))"

definition Add ::
  "('m, 's) Defs \<Rightarrow> 'm MetricData \<Rightarrow> ('m, 's) DefCache \<Rightarrow> panic + ('m, 's) DefCache" where
  "Add ds metric dc =
     (case ById dc (md_Id metric) of
        Some i \<Rightarrow>
          (if i < length (defs dc)
           then
             (let mdef = defs dc ! i in
              if stale mdef metric
              then Add_update ds metric i (MetricDefinitionFromMetricData metric) dc
              else Inr dc)
           else Inl IndexOutOfRange)
      | None \<Rightarrow> Inr (Add_create ds metric (MetricDefinitionFromMetricData metric) dc))"

text \<open>\<^verbatim>\<open>Get\<close> (lines 231-242).\<close>

definition Get ::
  "string \<Rightarrow> ('m, 's) DefCache \<Rightarrow> panic + ('m MetricDefinition option \<times> bool)" where
  "Get ext_id dc =
     (case ById dc ext_id of
        Some i \<Rightarrow> (if i < length (defs dc) then Inr (Some (defs dc ! i), True) else Inl IndexOutOfRange)
      | None \<Rightarrow> Inr (None, False))"

subsection \<open>Sequences of calls\<close>

text \<open>
  The cache changes by batches of \<^verbatim>\<open>Backfill\<close> (one run of the closure \<^verbatim>\<open>add\<close> under
  the lock) and by calls of \<^verbatim>\<open>Add\<close>. \<open>run_calls\<close> performs a list of them one after
  the other and stops at a panic.
\<close>

datatype 'm call = Batch "'m MetricDefinition list" | AddCall "'m MetricData"

fun run_calls ::
  "('m, 's) Defs \<Rightarrow> 'm call list \<Rightarrow> ('m, 's) DefCache \<Rightarrow> panic + ('m, 's) DefCache" where
  "run_calls ds [] dc = Inr dc"
| "run_calls ds (Batch met # cs) dc = run_calls ds cs (snd (add met (0, dc)))"
| "run_calls ds (AddCall metric # cs) dc =
     (case Add ds metric dc of
        Inl p \<Rightarrow> Inl p
      | Inr dc' \<Rightarrow> run_calls ds cs dc')"

text \<open>
  The invariant the comments of lines 140 and 143 describe ("gets id auto assigned
  from 0 and onwards", "which maps 1:1 with pos in this array"): every identifier
  the index has allocated is a position of the slice, and the definition there has
  the name the identifier was allocated for.
\<close>

definition position_is_identifier :: "('m, 's) DefCache \<Rightarrow> bool" where
  "position_is_identifier dc =
     (length (names (ByKey dc)) \<le> length (defs dc) \<and>
      map def_Name (take (length (names (ByKey dc))) (defs dc)) = map snd (names (ByKey dc)))"

text \<open>
  Every identifier in \<^verbatim>\<open>ById\<close>, and every identifier the index can return, is a
  position of the slice: with this, \<^verbatim>\<open>dc.defs[id]\<close> does not panic.
\<close>

definition in_range :: "('m, 's) DefCache \<Rightarrow> bool" where
  "in_range dc =
     ((\<forall>ext_id i. ById dc ext_id = Some i \<longrightarrow> i < length (defs dc)) \<and>
      length (names (ByKey dc)) \<le> length (defs dc))"

subsection \<open>Concurrent calls of \<^verbatim>\<open>Add\<close>\<close>

text \<open>
  A call of \<^verbatim>\<open>Add\<close> takes the lock up to three times, and other calls may run
  between two of its sections. What a call does while it holds the lock is one
  atomic step; its program counter says which section comes next:
  \<^item> \<open>Start\<close>: the lookup of lines 168-171;
  \<^item> \<open>Known i\<close>: the read of \<^verbatim>\<open>dc.defs[id]\<close> and the first staleness test, lines 174-177;
  \<^item> \<open>Update i\<close>: building the definition and the section of lines 183-189;
  \<^item> \<open>Create\<close>: building the definition and the section of lines 195-207;
  \<^item> \<open>Done\<close>: the call has returned; \<open>Panicked\<close>: it has panicked.
\<close>

datatype pc = Start | Known nat | Update nat | Create | Done | Panicked

fun Add_step ::
  "('m, 's) Defs \<Rightarrow> 'm MetricData \<Rightarrow> pc \<Rightarrow> ('m, 's) DefCache \<Rightarrow> pc \<times> ('m, 's) DefCache" where
  "Add_step ds metric Start dc =
     (case ById dc (md_Id metric) of
        Some i \<Rightarrow> (Known i, dc)
      | None \<Rightarrow> (Create, dc))"
| "Add_step ds metric (Known i) dc =
     (if i < length (defs dc)
      then (if stale (defs dc ! i) metric then (Update i, dc) else (Done, dc))
      else (Panicked, dc))"
| "Add_step ds metric (Update i) dc =
     (case Add_update ds metric i (MetricDefinitionFromMetricData metric) dc of
        Inl p \<Rightarrow> (Panicked, dc)
      | Inr dc' \<Rightarrow> (Done, dc'))"
| "Add_step ds metric Create dc =
     (Done, Add_create ds metric (MetricDefinitionFromMetricData metric) dc)"
| "Add_step ds metric Done dc = (Done, dc)"
| "Add_step ds metric Panicked dc = (Panicked, dc)"

text \<open>
  A configuration is the list of the calls in flight, each with its data point and
  its program counter, and the shared state. A schedule is the list of the calls'
  numbers in the order in which they take their steps.
\<close>

definition sched_step ::
  "('m, 's) Defs \<Rightarrow> nat \<Rightarrow> ('m MetricData \<times> pc) list \<times> ('m, 's) DefCache
     \<Rightarrow> ('m MetricData \<times> pc) list \<times> ('m, 's) DefCache" where
  "sched_step ds n cfg =
     (if n < length (fst cfg)
      then
        (case Add_step ds (fst (fst cfg ! n)) (snd (fst cfg ! n)) (snd cfg) of
           (pc', dc') \<Rightarrow> ((fst cfg)[n := (fst (fst cfg ! n), pc')], dc'))
      else cfg)"

definition run_schedule ::
  "('m, 's) Defs \<Rightarrow> nat list \<Rightarrow> ('m MetricData \<times> pc) list \<times> ('m, 's) DefCache
     \<Rightarrow> ('m MetricData \<times> pc) list \<times> ('m, 's) DefCache" where
  "run_schedule ds sched cfg = fold (sched_step ds) sched cfg"

definition calls :: "'m MetricData list \<Rightarrow> ('m MetricData \<times> pc) list" where
  "calls ms = map (\<lambda>m. (m, Start)) ms"

definition returned :: "('m MetricData \<times> pc) list \<Rightarrow> bool" where
  "returned ths = list_all (\<lambda>t. snd t = Done) ths"

text \<open>
  \<^verbatim>\<open>addToES\<close> adds one to exactly one of the two counters, so their sum is the number
  of write-throughs so far.
\<close>

definition write_throughs :: "('m, 's) DefCache \<Rightarrow> nat" where
  "write_throughs dc = metricsToEsOK dc + metricsToEsFail dc"

text \<open>
  The steps of a run in which \<^verbatim>\<open>addToES\<close> is called: a creating step is a \<open>Create\<close>
  step that does not find the id in \<^verbatim>\<open>ById\<close> (line 202), a refreshing step is an
  \<open>Update\<close> step that finds the stored definition stale (line 186).
\<close>

definition creating :: "nat \<Rightarrow> ('m MetricData \<times> pc) list \<times> ('m, 's) DefCache \<Rightarrow> bool" where
  "creating n cfg =
     (n < length (fst cfg) \<and> snd (fst cfg ! n) = Create \<and>
      ById (snd cfg) (md_Id (fst (fst cfg ! n))) = None)"

definition refreshing :: "nat \<Rightarrow> ('m MetricData \<times> pc) list \<times> ('m, 's) DefCache \<Rightarrow> bool" where
  "refreshing n cfg =
     (n < length (fst cfg) \<and>
      (case snd (fst cfg ! n) of
         Update i \<Rightarrow> i < length (defs (snd cfg)) \<and> stale (defs (snd cfg) ! i) (fst (fst cfg ! n))
       | _ \<Rightarrow> False))"

fun creations ::
  "('m, 's) Defs \<Rightarrow> nat list \<Rightarrow> ('m MetricData \<times> pc) list \<times> ('m, 's) DefCache \<Rightarrow> nat" where
  "creations ds [] cfg = 0"
| "creations ds (n # ns) cfg =
     (if creating n cfg then 1 else 0) + creations ds ns (sched_step ds n cfg)"

fun refreshes ::
  "('m, 's) Defs \<Rightarrow> nat list \<Rightarrow> ('m MetricData \<times> pc) list \<times> ('m, 's) DefCache \<Rightarrow> nat" where
  "refreshes ds [] cfg = 0"
| "refreshes ds (n # ns) cfg =
     (if refreshing n cfg then 1 else 0) + refreshes ds ns (sched_step ds n cfg)"

text \<open>
  The timestamps of the calls that write through, in the order of their steps:
  \<open>refresh_times\<close> lists those of the refreshing steps, \<open>write_times\<close> those of the
  creating and the refreshing steps.
\<close>

fun refresh_times ::
  "('m, 's) Defs \<Rightarrow> nat list \<Rightarrow> ('m MetricData \<times> pc) list \<times> ('m, 's) DefCache
     \<Rightarrow> 64 word list" where
  "refresh_times ds [] cfg = []"
| "refresh_times ds (n # ns) cfg =
     (if refreshing n cfg then [md_Time (fst (fst cfg ! n))] else [])
       @ refresh_times ds ns (sched_step ds n cfg)"

fun write_times ::
  "('m, 's) Defs \<Rightarrow> nat list \<Rightarrow> ('m MetricData \<times> pc) list \<times> ('m, 's) DefCache
     \<Rightarrow> 64 word list" where
  "write_times ds [] cfg = []"
| "write_times ds (n # ns) cfg =
     (if creating n cfg \<or> refreshing n cfg then [md_Time (fst (fst cfg ! n))] else [])
       @ write_times ds ns (sched_step ds n cfg)"

definition done_count :: "('m MetricData \<times> pc) list \<Rightarrow> nat" where
  "done_count ths = length (filter (\<lambda>t. snd t = Done) ths)"

text \<open>
  Data points whose timestamps lie within one freshness window: none is more than
  21600 seconds after another.
\<close>

definition within_window :: "'m MetricData list \<Rightarrow> bool" where
  "within_window ms =
     list_all (\<lambda>m. list_all (\<lambda>m'. sint (md_Time m) \<le> sint (md_Time m') + 21600) ms) ms"

text \<open>
  The invariant of a run of calls \<open>ms\<close> that all carry an external id registered at
  slot \<open>k\<close> of the initial state \<open>dc0\<close>: the calls only look at slot \<open>k\<close>, the indexes
  stay as they are, the slot holds either the initial definition (and then nothing
  was written and no call has returned) or the definition built by one of the
  calls, and no call that has returned is more than 21600 seconds ahead of the
  slot.
\<close>

definition refresh_inv ::
  "nat \<Rightarrow> 'm MetricData list \<Rightarrow> ('m, 's) DefCache
     \<Rightarrow> ('m MetricData \<times> pc) list \<times> ('m, 's) DefCache \<Rightarrow> bool" where
  "refresh_inv k ms dc0 cfg =
     (map fst (fst cfg) = ms \<and>
      ById (snd cfg) = ById dc0 \<and> ByKey (snd cfg) = ByKey dc0 \<and>
      list_all (\<lambda>t. snd t = Start \<or> snd t = Known k \<or> snd t = Update k \<or> snd t = Done)
        (fst cfg) \<and>
      ((defs (snd cfg) = defs dc0 \<and> write_throughs (snd cfg) = write_throughs dc0 \<and>
        done_count (fst cfg) = 0) \<or>
       (list_ex (\<lambda>m. defs (snd cfg) = (defs dc0)[k := MetricDefinitionFromMetricData m]) ms \<and>
        write_throughs dc0 < write_throughs (snd cfg) \<and>
        (\<not> within_window ms \<or> write_throughs (snd cfg) = Suc (write_throughs dc0)))) \<and>
      list_all
        (\<lambda>t. snd t \<noteq> Done \<or>
             sint (md_Time (fst t)) \<le> sint (def_LastUpdate (defs (snd cfg) ! k)) + 21600)
        (fst cfg))"

text \<open>
  The invariant of a run of calls \<open>ms\<close> that all carry the external id \<open>x\<close>, not
  registered in the initial state \<open>dc0\<close>, when the index answers the calls' tenant
  and name with the next position \<open>k\<close> of the slice: either the id is still not
  registered, nothing was written and every call is before its creating section,
  or the id is registered at \<open>k\<close>, the slot holds the definition built by one of the
  calls, and exactly one write-through was made.
\<close>

definition create_inv ::
  "string \<Rightarrow> nat \<Rightarrow> 'm MetricData list \<Rightarrow> ('m, 's) DefCache
     \<Rightarrow> ('m MetricData \<times> pc) list \<times> ('m, 's) DefCache \<Rightarrow> bool" where
  "create_inv x k ms dc0 cfg =
     (map fst (fst cfg) = ms \<and>
      ((ById (snd cfg) x = None \<and> ByKey (snd cfg) = ByKey dc0 \<and>
        length (defs (snd cfg)) = k \<and>
        write_throughs (snd cfg) = write_throughs dc0 \<and>
        list_all (\<lambda>t. snd t = Start \<or> snd t = Create) (fst cfg)) \<or>
       (ById (snd cfg) x = Some k \<and> length (defs (snd cfg)) = Suc k \<and>
        list_ex (\<lambda>m. defs (snd cfg) ! k = MetricDefinitionFromMetricData m) ms \<and>
        write_throughs (snd cfg) = Suc (write_throughs dc0) \<and>
        list_all (\<lambda>t. snd t = Start \<or> snd t = Create \<or> snd t = Known k \<or> snd t = Update k
                      \<or> snd t = Done) (fst cfg))))"

subsection \<open>A failing scan of the store\<close>

text \<open>
  A failing scan, in the words of the spec: asked with cursor \<open>c\<close> in state \<open>st\<close>, the
  store hands out the pages \<open>ps\<close> one after the other, each with a cursor for the
  next, and answers the request that follows with the error \<open>e\<close>, which leaves it in
  state \<open>st'\<close>.
\<close>

fun fetch_fails_after ::
  "('m, 's) Defs \<Rightarrow> string \<Rightarrow> 's \<Rightarrow> 'm MetricDefinition list list \<Rightarrow> string \<Rightarrow> 's \<Rightarrow> bool" where
  "fetch_fails_after ds c st [] e st' =
     (snd (snd (fst (GetMetrics ds c st))) = Some e \<and> snd (GetMetrics ds c st) = st')"
| "fetch_fails_after ds c st (p # ps) e st' =
     (case GetMetrics ds c st of
        ((met, c', err), st1) \<Rightarrow>
          err = None \<and> met = p \<and> c' \<noteq> [] \<and> fetch_fails_after ds c' st1 ps e st')"

section \<open>Properties of the request contract\<close>

text \<open>
  C9. \<^verbatim>\<open>NewReq\<close> returns a request whose first six fields are the arguments, whose
  archive is -2, a value outside the documented range of the field (which starts
  at -1, the original data), and whose four interval fields are 0.
\<close>

theorem NewReq_fields:
  "key (NewReq k f t minP maxP c) = k \<and>
   from' (NewReq k f t minP maxP c) = f \<and>
   to' (NewReq k f t minP maxP c) = t \<and>
   minPoints (NewReq k f t minP maxP c) = minP \<and>
   maxPoints (NewReq k f t minP maxP c) = maxP \<and>
   consolidator (NewReq k f t minP maxP c) = c \<and>
   archive (NewReq k f t minP maxP c) = - 2 \<and>
   \<not> archive_documented (archive (NewReq k f t minP maxP c)) \<and>
   archive_documented (- 1) \<and>
   rawInterval (NewReq k f t minP maxP c) = 0 \<and>
   archInterval (NewReq k f t minP maxP c) = 0 \<and>
   outInterval (NewReq k f t minP maxP c) = 0 \<and>
   aggNum (NewReq k f t minP maxP c) = 0"
  by (simp add: NewReq_def archive_documented_def)

lemma span_uint: "uint (span r) = (uint (to' r) - uint (from' r) - 1) mod 2 ^ 32"
  by (simp add: span_def uint_word_ariths mod_diff_left_eq)

lemma span_uint_wrapped:
  assumes le: "to' r \<le> from' r"
  shows "uint (span r) = uint (to' r) - uint (from' r) - 1 + 2 ^ 32"
proof -
  have a: "uint (to' r) \<le> uint (from' r)" using le by (simp add: word_le_def)
  have b: "0 \<le> uint (to' r)" by simp
  have c: "uint (from' r) < 2 ^ 32" using uint_lt2p [of "from' r"] by simp
  have d: "(uint (to' r) - uint (from' r) - 1) mod 2 ^ 32
             = (uint (to' r) - uint (from' r) - 1 + 2 ^ 32) mod 2 ^ 32"
    by (metis mod_add_self2)
  have "(uint (to' r) - uint (from' r) - 1 + 2 ^ 32) mod 2 ^ 32
          = uint (to' r) - uint (from' r) - 1 + 2 ^ 32"
  proof (rule mod_pos_pos_trivial)
    show "0 \<le> uint (to' r) - uint (from' r) - 1 + 2 ^ 32" using b c by linarith
    show "uint (to' r) - uint (from' r) - 1 + 2 ^ 32 < 2 ^ 32" using a by linarith
  qed
  thus ?thesis using d by (simp add: span_uint)
qed

text \<open>
  C10. The span that \<^verbatim>\<open>String\<close> prints is \<^verbatim>\<open>to - from - 1\<close> computed on 32-bit unsigned
  words: the printed number is the integer \<open>to - from - 1\<close> reduced modulo \<open>2^32\<close>, so
  whenever \<open>to \<le> from\<close> it is \<open>to - from - 1 + 2^32\<close>, and for \<open>to = from\<close> it is
  4294967295.
\<close>

theorem String_span_wraps:
  "String TS show_c r =
     key r @ '' '' @ decimal (unat (from' r)) @ '' - '' @ decimal (unat (to' r))
       @ '' ('' @ TS (from' r) @ '' - '' @ TS (to' r) @ '') span:''
       @ decimal (nat ((uint (to' r) - uint (from' r) - 1) mod 2 ^ 32))
       @ ''s. '' @ decimal (unat (minPoints r)) @ '' <= points <= ''
       @ decimal (unat (maxPoints r)) @ ''. '' @ show_c (consolidator r) \<and>
   (to' r \<le> from' r \<longrightarrow>
      (uint (to' r) - uint (from' r) - 1) mod 2 ^ 32 = uint (to' r) - uint (from' r) - 1 + 2 ^ 32) \<and>
   (to' r = from' r \<longrightarrow> (uint (to' r) - uint (from' r) - 1) mod 2 ^ 32 = 4294967295)"
proof -
  have u: "unat (span r) = nat ((uint (to' r) - uint (from' r) - 1) mod 2 ^ 32)"
    using span_uint [of r] by (simp add: unat_eq_nat_uint)
  have w: "to' r \<le> from' r \<Longrightarrow>
      (uint (to' r) - uint (from' r) - 1) mod 2 ^ 32 = uint (to' r) - uint (from' r) - 1 + 2 ^ 32"
    using span_uint_wrapped [of r] span_uint [of r] by simp
  have e: "to' r = from' r \<Longrightarrow> (uint (to' r) - uint (from' r) - 1) mod 2 ^ 32 = 4294967295"
    using w by simp
  show ?thesis using w e by (simp add: String_def u)
qed

theorem String_span_wraps_witness:
  "(5 :: 32 word) \<le> 5 \<and>
   String (\<lambda>_. ''ts'') (\<lambda>_. ''avg'') (NewReq ''k'' 5 5 1 2 ())
     = ''k 5 - 5 (ts - ts) span:4294967295s. 1 <= points <= 2. avg''"
proof -
  let ?r = "NewReq ''k'' 5 5 1 2 () :: unit Req"
  have m: "(uint (to' ?r) - uint (from' ?r) - 1) mod 2 ^ 32 = 4294967295"
    using String_span_wraps [of "\<lambda>_. ''ts''" "\<lambda>_. ''avg''" ?r] by (simp add: NewReq_def)
  have s: "String (\<lambda>_. ''ts'') (\<lambda>_. ''avg'') ?r =
     key ?r @ '' '' @ decimal (unat (from' ?r)) @ '' - '' @ decimal (unat (to' ?r))
       @ '' ('' @ ''ts'' @ '' - '' @ ''ts'' @ '') span:''
       @ decimal (nat ((uint (to' ?r) - uint (from' ?r) - 1) mod 2 ^ 32))
       @ ''s. '' @ decimal (unat (minPoints ?r)) @ '' <= points <= ''
       @ decimal (unat (maxPoints ?r)) @ ''. '' @ ''avg''"
    using String_span_wraps [of "\<lambda>_. ''ts''" "\<lambda>_. ''avg''" ?r] by blast
  show ?thesis
    unfolding s m by (simp add: NewReq_def decimal.simps digit_def)
qed

section \<open>Properties of the definition cache\<close>

subsection \<open>Timestamps and the staleness test\<close>

lemma sint_sub_21600:
  assumes "- (2 ^ 63) + 21600 \<le> sint (t :: 64 word)"
  shows "sint (t - 21600) = sint t - 21600"
proof -
  have ub: "sint t < 2 ^ 63" using sint_lt [of t] by simp
  have "sint (t - 21600) = signed_take_bit 63 (sint t - sint (21600 :: 64 word))"
    by (simp add: sint_word_ariths)
  also have "\<dots> = signed_take_bit 63 (sint t - 21600)" by simp
  also have "\<dots> = sint t - 21600"
    using assms ub by (intro signed_take_bit_int_eq_self) auto
  finally show ?thesis .
qed

lemma stale_iff:
  assumes "- (2 ^ 63) + 21600 \<le> sint (md_Time metric)"
  shows "stale mdef metric \<longleftrightarrow> sint (def_LastUpdate mdef) < sint (md_Time metric) - 21600"
  using sint_sub_21600 [OF assms] by (simp add: stale_def word_sless_alt)

lemma stale_if_older:
  assumes "sint (def_LastUpdate mdef) + 21600 < sint (md_Time metric)"
  shows "stale mdef metric"
proof -
  have "- (2 ^ 63) \<le> sint (def_LastUpdate mdef)"
    using sint_ge [of "def_LastUpdate mdef"] by simp
  hence "- (2 ^ 63) + 21600 \<le> sint (md_Time metric)" using assms by linarith
  thus ?thesis using assms by (simp add: stale_iff)
qed

lemma not_stale_boundary:
  "md_Time metric = def_LastUpdate mdef + 21600 \<Longrightarrow> \<not> stale mdef metric"
  by (simp add: stale_def)

lemma not_stale_sle:
  "word_sle (md_Time metric - 21600) (def_LastUpdate mdef) \<longleftrightarrow> \<not> stale mdef metric"
  by (auto simp add: stale_def word_sle_eq word_sless_alt)

subsection \<open>What the building blocks change\<close>

lemma addToES_memory [simp]:
  "defs (addToES ds mdef dc) = defs dc"
  "ById (addToES ds mdef dc) = ById dc"
  "ByKey (addToES ds mdef dc) = ByKey dc"
  by (simp_all add: addToES_def split: prod.split option.split)

lemma addToES_store:
  "defsStore (addToES ds mdef dc) = snd (IndexMetric ds mdef (defsStore dc))"
  by (simp add: addToES_def split: prod.split option.split)

lemma addToES_count:
  "metricsToEsOK (addToES ds mdef dc) + metricsToEsFail (addToES ds mdef dc)
     = metricsToEsOK dc + metricsToEsFail dc + 1"
  by (simp add: addToES_def split: prod.split option.split)

lemma index_and_append_fields [simp]:
  "defs (index_and_append d dc) = defs dc @ [d]"
  "ById (index_and_append d dc)
     = (ById dc)(def_Id d \<mapsto> fst (GetOrAdd (ByKey dc) (def_OrgId d) (def_Name d)))"
  "ByKey (index_and_append d dc) =
     AddRef (snd (GetOrAdd (ByKey dc) (def_OrgId d) (def_Name d))) (def_OrgId d)
       (fst (GetOrAdd (ByKey dc) (def_OrgId d) (def_Name d)))"
  "defsStore (index_and_append d dc) = defsStore dc"
  "metricsToEsOK (index_and_append d dc) = metricsToEsOK dc"
  "metricsToEsFail (index_and_append d dc) = metricsToEsFail dc"
  "logged (index_and_append d dc) = logged dc"
  by (simp_all add: index_and_append_def split: prod.split)

lemma MetricDefinitionFromMetricData_fields [simp]:
  "def_Id (MetricDefinitionFromMetricData m) = md_Id m"
  "def_OrgId (MetricDefinitionFromMetricData m) = md_OrgId m"
  "def_Name (MetricDefinitionFromMetricData m) = md_Name m"
  "def_LastUpdate (MetricDefinitionFromMetricData m) = md_Time m"
  "def_Meta (MetricDefinitionFromMetricData m) = md_Meta m"
  by (simp_all add: MetricDefinitionFromMetricData_def)

subsection \<open>Reads of the slice stay in range\<close>

lemma index_of_less: "index_of x xs = Some i \<Longrightarrow> i < length xs"
  by (induction xs arbitrary: i) (auto split: if_splits)

lemma GetOrAdd_bounds:
  "fst (GetOrAdd ix org name) \<le> length (names ix) \<and>
   length (names (snd (GetOrAdd ix org name))) \<le> Suc (length (names ix))"
  using index_of_less [of "(org, name)" "names ix"]
  by (auto simp add: GetOrAdd_def split: option.split)

lemma in_range_empty_cache: "in_range (empty_cache st)"
  by (simp add: in_range_def empty_cache_def idx_New_def)

lemma in_range_index_and_append:
  assumes "in_range dc"
  shows "in_range (index_and_append d dc)"
proof -
  let ?g = "GetOrAdd (ByKey dc) (def_OrgId d) (def_Name d)"
  have b: "fst ?g \<le> length (names (ByKey dc))"
    and c: "length (names (snd ?g)) \<le> Suc (length (names (ByKey dc)))"
    using GetOrAdd_bounds [of "ByKey dc" "def_OrgId d" "def_Name d"] by simp_all
  have "ById (index_and_append d dc) ext_id = Some i
          \<Longrightarrow> i < length (defs (index_and_append d dc))" for ext_id i
    using assms b by (auto simp add: in_range_def less_Suc_eq split: if_splits)
  moreover have "length (names (ByKey (index_and_append d dc)))
                   \<le> length (defs (index_and_append d dc))"
    using assms c by (simp add: in_range_def AddRef_def)
  ultimately show ?thesis unfolding in_range_def by blast
qed

lemma in_range_fold: "in_range dc \<Longrightarrow> in_range (fold index_and_append ms dc)"
  by (induction ms arbitrary: dc) (simp_all add: in_range_index_and_append)

lemma in_range_addToES: "in_range (addToES ds mdef dc) = in_range dc"
  by (simp add: in_range_def)

lemma in_range_lookup: "in_range dc \<Longrightarrow> ById dc ext_id = Some i \<Longrightarrow> i < length (defs dc)"
  by (auto simp add: in_range_def)

lemma Add_in_range:
  assumes "in_range dc"
  shows "\<exists>dc'. Add ds metric dc = Inr dc' \<and> in_range dc'"
proof (cases "ById dc (md_Id metric)")
  case None
  then show ?thesis
    using assms
    by (simp add: Add_def Add_create_def in_range_index_and_append in_range_addToES)
next
  case (Some i)
  have r: "i < length (defs dc)" using assms Some by (rule in_range_lookup)
  have "in_range ((addToES ds mdef dc)\<lparr>defs := (defs dc)[i := mdef]\<rparr>)" for mdef
    using assms by (simp add: in_range_def)
  then show ?thesis
    using Some r assms by (simp add: Add_def Add_update_def Let_def)
qed

lemma run_calls_in_range:
  assumes "in_range dc"
  shows "\<exists>dc'. run_calls ds cs dc = Inr dc' \<and> in_range dc'"
  using assms
proof (induction cs arbitrary: dc)
  case Nil
  then show ?case by simp
next
  case (Cons c cs)
  show ?case
  proof (cases c)
    case (Batch met)
    have "in_range (snd (add met (0, dc)))"
      using Cons.prems by (simp add: add_def in_range_fold)
    from Cons.IH [OF this] show ?thesis using Batch by simp
  next
    case (AddCall metric)
    obtain dc1 where a: "Add ds metric dc = Inr dc1" and r: "in_range dc1"
      using Add_in_range [OF Cons.prems] by blast
    from Cons.IH [OF r] show ?thesis using AddCall a by simp
  qed
qed

subsection \<open>A single call of \<^verbatim>\<open>Add\<close>\<close>

text \<open>
  C3. When the external id of the data point is in \<^verbatim>\<open>ById\<close> and the stored
  definition is fresh, that is its last-update is at least \<^verbatim>\<open>metric.Time - 21600\<close> in
  the signed 64-bit arithmetic of the test, \<^verbatim>\<open>Add\<close> returns the state it was given:
  the slice, both indexes, the store, the counters and the log are unchanged, so
  nothing was written through. A data point exactly 21600 seconds after the
  stored last-update is such a case. Where the subtraction does not wrap around,
  fresh means the same on the integers the timestamps stand for.
\<close>

theorem Add_fresh_noop:
  assumes "ById dc (md_Id metric) = Some i" and "i < length (defs dc)"
  shows "(word_sle (md_Time metric - 21600) (def_LastUpdate (defs dc ! i))
            \<longrightarrow> Add ds metric dc = Inr dc) \<and>
         (md_Time metric = def_LastUpdate (defs dc ! i) + 21600
            \<longrightarrow> Add ds metric dc = Inr dc) \<and>
         (- (2 ^ 63) + 21600 \<le> sint (md_Time metric) \<and>
          sint (md_Time metric) - 21600 \<le> sint (def_LastUpdate (defs dc ! i))
            \<longrightarrow> Add ds metric dc = Inr dc)"
proof -
  have "\<not> stale (defs dc ! i) metric"
    if "- (2 ^ 63) + 21600 \<le> sint (md_Time metric)"
      and "sint (md_Time metric) - 21600 \<le> sint (def_LastUpdate (defs dc ! i))"
    using that by (simp add: stale_iff)
  thus ?thesis
    using assms not_stale_boundary [of metric "defs dc ! i"]
    by (auto simp add: Add_def not_stale_sle)
qed

theorem Add_fresh_noop_witness:
  "(let ds = \<lparr> GetMetrics = (\<lambda>c st. (([], [], None), st)),
               IndexMetric = (\<lambda>m st. (None, Suc st)) \<rparr>;
        d = \<lparr> def_Id = ''abc'', def_OrgId = 1, def_Name = ''host.cpu'',
              def_LastUpdate = 1000, def_Meta = () \<rparr>;
        dc = \<lparr> defs = [d], ById = [''abc'' \<mapsto> 0],
               ByKey = \<lparr> names = [(1, ''host.cpu'')], refs = [(1, 0)] \<rparr>, defsStore = (1 :: nat),
               metricsToEsOK = 1, metricsToEsFail = 0, logged = [] \<rparr>;
        m = \<lparr> md_Id = ''abc'', md_OrgId = 1, md_Name = ''host.cpu'', md_Time = 22600,
              md_Meta = () \<rparr>
    in ById dc (md_Id m) = Some 0 \<and> 0 < length (defs dc) \<and>
       word_sle (md_Time m - 21600) (def_LastUpdate (defs dc ! 0)) \<and>
       md_Time m = def_LastUpdate (defs dc ! 0) + 21600 \<and>
       Add ds m dc = Inr dc \<and> Add ds (m\<lparr>md_Time := 1100\<rparr>) dc = Inr dc)"
proof -
  let ?ds = "\<lparr> GetMetrics = (\<lambda>c st. (([], [], None), st)),
               IndexMetric = (\<lambda>m st. (None, Suc st)) \<rparr> :: (unit, nat) Defs"
  let ?d = "\<lparr> def_Id = ''abc'', def_OrgId = 1, def_Name = ''host.cpu'',
              def_LastUpdate = 1000, def_Meta = () \<rparr>"
  let ?dc = "\<lparr> defs = [?d], ById = [''abc'' \<mapsto> 0],
               ByKey = \<lparr> names = [(1, ''host.cpu'')], refs = [(1, 0)] \<rparr>, defsStore = (1 :: nat),
               metricsToEsOK = 1, metricsToEsFail = 0, logged = [] \<rparr>"
  let ?m = "\<lparr> md_Id = ''abc'', md_OrgId = 1, md_Name = ''host.cpu'', md_Time = 22600,
              md_Meta = () \<rparr>"
  have a: "Add ?ds ?m ?dc = Inr ?dc"
    using Add_fresh_noop [of ?dc ?m 0 ?ds] by simp
  have b: "Add ?ds (?m\<lparr>md_Time := 1100\<rparr>) ?dc = Inr ?dc"
    using Add_fresh_noop [of ?dc "?m\<lparr>md_Time := 1100\<rparr>" 0 ?ds] by simp
  show ?thesis using a b by (simp add: Let_def)
qed

text \<open>
  C4. When the external id is known and the timestamp of the data point is more
  than 21600 seconds after the stored last-update, a single \<^verbatim>\<open>Add\<close> rebuilds the
  definition from the data point, finds the stored one still stale under the
  exclusive lock, calls \<^verbatim>\<open>IndexMetric\<close> once (the store moves by one call, the two
  counters together by one) and puts the new definition into the same slot: its
  last-update is the timestamp of the call; no other slot and neither index
  changes. The section under the lock tests the definition stored at that moment:
  in whatever state it runs, it writes through and replaces the slot when that
  definition is stale, and changes nothing otherwise.
\<close>

theorem Add_stale_refresh:
  assumes known: "ById dc (md_Id metric) = Some i" and inr: "i < length (defs dc)"
      and old: "sint (def_LastUpdate (defs dc ! i)) + 21600 < sint (md_Time metric)"
  shows "\<exists>dc'. Add ds metric dc = Inr dc' \<and>
           dc' = (addToES ds (MetricDefinitionFromMetricData metric) dc)
                   \<lparr>defs := (defs dc)[i := MetricDefinitionFromMetricData metric]\<rparr> \<and>
           defs dc' ! i = MetricDefinitionFromMetricData metric \<and>
           def_LastUpdate (defs dc' ! i) = md_Time metric \<and>
           length (defs dc') = length (defs dc) \<and>
           (\<forall>j. j \<noteq> i \<longrightarrow> defs dc' ! j = defs dc ! j) \<and>
           ById dc' = ById dc \<and> ByKey dc' = ByKey dc \<and>
           defsStore dc'
             = snd (IndexMetric ds (MetricDefinitionFromMetricData metric) (defsStore dc)) \<and>
           metricsToEsOK dc' + metricsToEsFail dc'
             = metricsToEsOK dc + metricsToEsFail dc + 1 \<and>
           (\<forall>dc2. i < length (defs dc2) \<longrightarrow>
              Add_step ds metric (Update i) dc2
                = (Done,
                   if stale (defs dc2 ! i) metric
                   then (addToES ds (MetricDefinitionFromMetricData metric) dc2)
                          \<lparr>defs := (defs dc2)[i := MetricDefinitionFromMetricData metric]\<rparr>
                   else dc2))"
proof -
  let ?m = "MetricDefinitionFromMetricData metric"
  let ?dc' = "(addToES ds ?m dc)\<lparr>defs := (defs dc)[i := ?m]\<rparr>"
  have e: "i < length (defs dc2) \<Longrightarrow>
              Add_step ds metric (Update i) dc2
                = (Done, if stale (defs dc2 ! i) metric
                         then (addToES ds ?m dc2)\<lparr>defs := (defs dc2)[i := ?m]\<rparr> else dc2)" for dc2
    by (simp add: Add_update_def Let_def)
  have st: "stale (defs dc ! i) metric" using old by (rule stale_if_older)
  have a: "Add ds metric dc = Inr ?dc'"
    using known inr st by (simp add: Add_def Add_update_def Let_def)
  have b: "defs ?dc' ! i = ?m" using inr by simp
  have c: "metricsToEsOK ?dc' + metricsToEsFail ?dc' = metricsToEsOK dc + metricsToEsFail dc + 1"
    using addToES_count [of ds ?m dc] by simp
  have d: "defsStore ?dc' = snd (IndexMetric ds ?m (defsStore dc))"
    using addToES_store [of ds ?m dc] by simp
  show ?thesis using a b c d e inr by simp
qed

theorem Add_stale_refresh_witness:
  "(let ds = \<lparr> GetMetrics = (\<lambda>c st. (([], [], None), st)),
               IndexMetric = (\<lambda>m st. (None, Suc st)) \<rparr>;
        m1 = \<lparr> md_Id = ''abc'', md_OrgId = 1, md_Name = ''host.cpu'', md_Time = 1000,
               md_Meta = () \<rparr>;
        dc1 = \<lparr> defs = [MetricDefinitionFromMetricData m1], ById = [''abc'' \<mapsto> 0],
                ByKey = \<lparr> names = [(1, ''host.cpu'')], refs = [(1, 0)] \<rparr>, defsStore = (1 :: nat),
                metricsToEsOK = 1, metricsToEsFail = 0, logged = [] \<rparr>
    in Add ds m1 (empty_cache 0) = Inr dc1 \<and>
       Add ds (m1\<lparr>md_Time := 1100\<rparr>) dc1 = Inr dc1 \<and>
       Add ds (m1\<lparr>md_Time := 31000\<rparr>) dc1
         = Inr (dc1\<lparr> defs := [MetricDefinitionFromMetricData (m1\<lparr>md_Time := 31000\<rparr>)],
                    defsStore := 2, metricsToEsOK := 2 \<rparr>))"
proof -
  let ?ds = "\<lparr> GetMetrics = (\<lambda>c st. (([], [], None), st)),
               IndexMetric = (\<lambda>m st. (None, Suc st)) \<rparr> :: (unit, nat) Defs"
  let ?m1 = "\<lparr> md_Id = ''abc'', md_OrgId = 1, md_Name = ''host.cpu'', md_Time = 1000,
               md_Meta = () \<rparr>"
  let ?dc1 = "\<lparr> defs = [MetricDefinitionFromMetricData ?m1], ById = [''abc'' \<mapsto> 0],
                ByKey = \<lparr> names = [(1, ''host.cpu'')], refs = [(1, 0)] \<rparr>, defsStore = (1 :: nat),
                metricsToEsOK = 1, metricsToEsFail = 0, logged = [] \<rparr>"
  have a: "Add ?ds ?m1 (empty_cache 0) = Inr ?dc1"
    by (simp add: Add_def Add_create_def empty_cache_def addToES_def index_and_append_def
          GetOrAdd_def AddRef_def idx_New_def MetricDefinitionFromMetricData_def)
  have b: "Add ?ds (?m1\<lparr>md_Time := 1100\<rparr>) ?dc1 = Inr ?dc1"
    by (simp add: Add_def stale_def MetricDefinitionFromMetricData_def)
  have c: "Add ?ds (?m1\<lparr>md_Time := 31000\<rparr>) ?dc1
         = Inr (?dc1\<lparr> defs := [MetricDefinitionFromMetricData (?m1\<lparr>md_Time := 31000\<rparr>)],
                    defsStore := 2, metricsToEsOK := 2 \<rparr>)"
    using Add_stale_refresh [of ?dc1 "?m1\<lparr>md_Time := 31000\<rparr>" 0 ?ds]
    by (simp add: addToES_def MetricDefinitionFromMetricData_def)
  show ?thesis using a b c by (simp add: Let_def)
qed

text \<open>
  C5. When the external id of the data point is not in \<^verbatim>\<open>ById\<close>, \<^verbatim>\<open>Add\<close> builds the
  definition, calls \<^verbatim>\<open>IndexMetric\<close> once (the store moves by one call, the two
  counters together by one), takes the identifier that \<^verbatim>\<open>GetOrAdd\<close> returns for the
  tenant and name, records the reference with \<^verbatim>\<open>AddRef\<close>, maps the external id to
  that identifier in \<^verbatim>\<open>ById\<close> and appends the definition to the slice; this is what
  the section under the exclusive lock does in a state without the id. The section
  starts with a second look at \<^verbatim>\<open>ById\<close>: when the id is there by then, the call
  returns and the state is unchanged.
\<close>

theorem Add_unknown_creates:
  "(ById dc (md_Id metric) = None \<longrightarrow>
      (\<exists>dc'. Add ds metric dc = Inr dc' \<and>
         dc' = index_and_append (MetricDefinitionFromMetricData metric)
                 (addToES ds (MetricDefinitionFromMetricData metric) dc) \<and>
         defsStore dc'
           = snd (IndexMetric ds (MetricDefinitionFromMetricData metric) (defsStore dc)) \<and>
         metricsToEsOK dc' + metricsToEsFail dc'
           = metricsToEsOK dc + metricsToEsFail dc + 1 \<and>
         (case GetOrAdd (ByKey dc) (md_OrgId metric) (md_Name metric) of
            (k, ix) \<Rightarrow>
              ByKey dc' = AddRef ix (md_OrgId metric) k \<and>
              ById dc' = (ById dc)(md_Id metric \<mapsto> k)) \<and>
         defs dc' = defs dc @ [MetricDefinitionFromMetricData metric] \<and>
         Add_step ds metric Create dc = (Done, dc'))) \<and>
   (ById dc (md_Id metric) \<noteq> None \<longrightarrow>
      Add_create ds metric mdef dc = dc \<and> Add_step ds metric Create dc = (Done, dc))"
proof -
  let ?m = "MetricDefinitionFromMetricData metric"
  let ?dc' = "index_and_append ?m (addToES ds ?m dc)"
  have c: "metricsToEsOK ?dc' + metricsToEsFail ?dc' = metricsToEsOK dc + metricsToEsFail dc + 1"
    using addToES_count [of ds ?m dc] by simp
  have d: "defsStore ?dc' = snd (IndexMetric ds ?m (defsStore dc))"
    using addToES_store [of ds ?m dc] by simp
  have a: "ById dc (md_Id metric) = None \<Longrightarrow>
             Add ds metric dc = Inr ?dc' \<and> Add_step ds metric Create dc = (Done, ?dc')"
    by (simp add: Add_def Add_create_def)
  have b: "ById dc (md_Id metric) \<noteq> None \<Longrightarrow> Add_create ds metric mdef dc = dc" for mdef
    by (auto simp add: Add_create_def)
  show ?thesis using a b c d by (simp split: prod.split)
qed

theorem Add_unknown_creates_witness:
  "(let ds = \<lparr> GetMetrics = (\<lambda>c st. (([], [], None), st)),
               IndexMetric = (\<lambda>m st. (None, Suc st)) \<rparr>;
        m1 = \<lparr> md_Id = ''abc'', md_OrgId = 1, md_Name = ''host.cpu'', md_Time = 1000,
               md_Meta = () \<rparr>;
        dc1 = \<lparr> defs = [MetricDefinitionFromMetricData m1], ById = [''abc'' \<mapsto> 0],
                ByKey = \<lparr> names = [(1, ''host.cpu'')], refs = [(1, 0)] \<rparr>, defsStore = (1 :: nat),
                metricsToEsOK = 1, metricsToEsFail = 0, logged = [] \<rparr>
    in ById (empty_cache 0 :: (unit, nat) DefCache) (md_Id m1) = None \<and>
       Add ds m1 (empty_cache 0) = Inr dc1 \<and>
       ById dc1 (md_Id m1) \<noteq> None \<and>
       Add_create ds m1 (MetricDefinitionFromMetricData m1) dc1 = dc1)"
proof -
  let ?ds = "\<lparr> GetMetrics = (\<lambda>c st. (([], [], None), st)),
               IndexMetric = (\<lambda>m st. (None, Suc st)) \<rparr> :: (unit, nat) Defs"
  let ?m1 = "\<lparr> md_Id = ''abc'', md_OrgId = 1, md_Name = ''host.cpu'', md_Time = 1000,
               md_Meta = () \<rparr>"
  let ?dc1 = "\<lparr> defs = [MetricDefinitionFromMetricData ?m1], ById = [''abc'' \<mapsto> 0],
                ByKey = \<lparr> names = [(1, ''host.cpu'')], refs = [(1, 0)] \<rparr>, defsStore = (1 :: nat),
                metricsToEsOK = 1, metricsToEsFail = 0, logged = [] \<rparr>"
  have a: "Add ?ds ?m1 (empty_cache 0) = Inr ?dc1"
    using Add_unknown_creates [of "empty_cache 0" ?m1 ?ds]
    by (simp add: empty_cache_def addToES_def index_and_append_def
          GetOrAdd_def AddRef_def idx_New_def MetricDefinitionFromMetricData_def)
  have b: "Add_create ?ds ?m1 (MetricDefinitionFromMetricData ?m1) ?dc1 = ?dc1"
    using Add_unknown_creates [of ?dc1 ?m1 ?ds "MetricDefinitionFromMetricData ?m1"]
    by simp
  show ?thesis using a b by (simp add: Let_def empty_cache_def)
qed

text \<open>
  C8. When \<^verbatim>\<open>Add\<close> writes through (the id is unknown, or it is known and its stored
  definition is stale) and \<^verbatim>\<open>IndexMetric\<close> returns an error, \<^verbatim>\<open>Add\<close> still returns
  normally, and the slice and both indexes are what they are with a store that
  succeeds: the definition is appended and registered, or put into its slot. The
  error is counted once in \<^verbatim>\<open>metricsToEsFail\<close> and logged once, and the store was
  called once.
\<close>

theorem Add_write_failure:
  assumes fail: "IndexMetric ds (MetricDefinitionFromMetricData metric) (defsStore dc) = (Some err, st)"
      and ok: "IndexMetric ds_ok (MetricDefinitionFromMetricData metric) (defsStore dc) = (None, st_ok)"
      and writes: "ById dc (md_Id metric) = None \<or>
                   (\<exists>i. ById dc (md_Id metric) = Some i \<and> i < length (defs dc) \<and> stale (defs dc ! i) metric)"
  shows "\<exists>dc' dc_ok.
           Add ds metric dc = Inr dc' \<and> Add ds_ok metric dc = Inr dc_ok \<and>
           defs dc' = defs dc_ok \<and> ById dc' = ById dc_ok \<and> ByKey dc' = ByKey dc_ok \<and>
           (case ById dc (md_Id metric) of
              None \<Rightarrow> defs dc' = defs dc @ [MetricDefinitionFromMetricData metric] \<and>
                       ById dc' (md_Id metric)
                         = Some (fst (GetOrAdd (ByKey dc) (md_OrgId metric) (md_Name metric)))
            | Some i \<Rightarrow> defs dc' = (defs dc)[i := MetricDefinitionFromMetricData metric]) \<and>
           defsStore dc' = st \<and>
           metricsToEsFail dc' = metricsToEsFail dc + 1 \<and>
           metricsToEsOK dc' = metricsToEsOK dc \<and>
           metricsToEsOK dc_ok = metricsToEsOK dc + 1 \<and>
           logged dc' = logged dc
              @ [LogError 3 ''couldn't index to ES %s: %s'' [md_Id metric, err]]"
proof -
  let ?m = "MetricDefinitionFromMetricData metric"
  have f: "addToES ds ?m dc = dc\<lparr> defsStore := st,
              logged := logged dc @ [LogError 3 ''couldn't index to ES %s: %s'' [md_Id metric, err]],
              metricsToEsFail := metricsToEsFail dc + 1 \<rparr>"
    using fail by (simp add: addToES_def)
  have g: "addToES ds_ok ?m dc = dc\<lparr> defsStore := st_ok, metricsToEsOK := metricsToEsOK dc + 1 \<rparr>"
    using ok by (simp add: addToES_def)
  from writes show ?thesis
  proof
    assume n: "ById dc (md_Id metric) = None"
    have a: "Add ds metric dc = Inr (index_and_append ?m (addToES ds ?m dc))"
      using n by (simp add: Add_def Add_create_def)
    have b: "Add ds_ok metric dc = Inr (index_and_append ?m (addToES ds_ok ?m dc))"
      using n by (simp add: Add_def Add_create_def)
    show ?thesis unfolding a b using n by (simp add: f g)
  next
    assume "\<exists>i. ById dc (md_Id metric) = Some i \<and> i < length (defs dc) \<and> stale (defs dc ! i) metric"
    then obtain i where k: "ById dc (md_Id metric) = Some i" and r: "i < length (defs dc)"
      and s: "stale (defs dc ! i) metric" by blast
    have a: "Add ds metric dc = Inr ((addToES ds ?m dc)\<lparr>defs := (defs dc)[i := ?m]\<rparr>)"
      using k r s by (simp add: Add_def Add_update_def Let_def)
    have b: "Add ds_ok metric dc = Inr ((addToES ds_ok ?m dc)\<lparr>defs := (defs dc)[i := ?m]\<rparr>)"
      using k r s by (simp add: Add_def Add_update_def Let_def)
    show ?thesis unfolding a b using k by (simp add: f g)
  qed
qed


theorem Add_write_failure_witness:
  "(let ds = \<lparr> GetMetrics = (\<lambda>c st. (([], [], None), st)),
               IndexMetric = (\<lambda>m st. (Some ''buffer full'', Suc st)) \<rparr>;
        m1 = \<lparr> md_Id = ''abc'', md_OrgId = 1, md_Name = ''host.cpu'', md_Time = 1000,
               md_Meta = () \<rparr>;
        dc1 = \<lparr> defs = [MetricDefinitionFromMetricData m1], ById = [''abc'' \<mapsto> 0],
                ByKey = \<lparr> names = [(1, ''host.cpu'')], refs = [(1, 0)] \<rparr>, defsStore = (1 :: nat),
                metricsToEsOK = 0, metricsToEsFail = 1,
                logged = [LogError 3 ''couldn't index to ES %s: %s'' [''abc'', ''buffer full'']] \<rparr>
    in Add ds m1 (empty_cache 0) = Inr dc1 \<and>
       Add ds (m1\<lparr>md_Time := 31000\<rparr>) dc1
         = Inr (dc1\<lparr> defs := [MetricDefinitionFromMetricData (m1\<lparr>md_Time := 31000\<rparr>)],
                    defsStore := 2, metricsToEsFail := 2,
                    logged := [LogError 3 ''couldn't index to ES %s: %s'' [''abc'', ''buffer full''],
                               LogError 3 ''couldn't index to ES %s: %s'' [''abc'', ''buffer full'']] \<rparr>))"
proof -
  let ?ds = "\<lparr> GetMetrics = (\<lambda>c st. (([], [], None), st)),
               IndexMetric = (\<lambda>m st. (Some ''buffer full'', Suc st)) \<rparr> :: (unit, nat) Defs"
  let ?ok = "\<lparr> GetMetrics = (\<lambda>c st. (([], [], None), st)),
               IndexMetric = (\<lambda>m st. (None, Suc st)) \<rparr> :: (unit, nat) Defs"
  let ?m1 = "\<lparr> md_Id = ''abc'', md_OrgId = 1, md_Name = ''host.cpu'', md_Time = 1000,
               md_Meta = () \<rparr>"
  let ?dc1 = "\<lparr> defs = [MetricDefinitionFromMetricData ?m1], ById = [''abc'' \<mapsto> 0],
                ByKey = \<lparr> names = [(1, ''host.cpu'')], refs = [(1, 0)] \<rparr>, defsStore = (1 :: nat),
                metricsToEsOK = 0, metricsToEsFail = 1,
                logged = [LogError 3 ''couldn't index to ES %s: %s'' [''abc'', ''buffer full'']] \<rparr>"
  have a: "Add ?ds ?m1 (empty_cache 0) = Inr ?dc1"
    using Add_write_failure [of ?ds ?m1 "empty_cache 0" "''buffer full''" 1 ?ok 1]
    by (simp add: Add_def Add_create_def empty_cache_def addToES_def index_and_append_def
          GetOrAdd_def AddRef_def idx_New_def MetricDefinitionFromMetricData_def)
  have b: "Add ?ds (?m1\<lparr>md_Time := 31000\<rparr>) ?dc1
         = Inr (?dc1\<lparr> defs := [MetricDefinitionFromMetricData (?m1\<lparr>md_Time := 31000\<rparr>)],
                    defsStore := 2, metricsToEsFail := 2,
                    logged := [LogError 3 ''couldn't index to ES %s: %s'' [''abc'', ''buffer full''],
                               LogError 3 ''couldn't index to ES %s: %s'' [''abc'', ''buffer full'']] \<rparr>)"
    using Add_write_failure [of ?ds "?m1\<lparr>md_Time := 31000\<rparr>" ?dc1 "''buffer full''" 2 ?ok 2]
    by (simp add: Add_def Add_update_def addToES_def stale_def MetricDefinitionFromMetricData_def)
  show ?thesis using a b by (simp add: Let_def)
qed

subsection \<open>\<^verbatim>\<open>Backfill\<close>\<close>

lemma index_and_append_defsStore_update:
  "index_and_append d (dc\<lparr>defsStore := st\<rparr>) = (index_and_append d dc)\<lparr>defsStore := st\<rparr>"
  by (simp add: index_and_append_def split: prod.split)

lemma fold_index_and_append_defsStore_update:
  "fold index_and_append ms (dc\<lparr>defsStore := st\<rparr>) = (fold index_and_append ms dc)\<lparr>defsStore := st\<rparr>"
  by (induction ms arbitrary: dc) (simp_all add: index_and_append_defsStore_update)

lemma fold_index_and_append_fields [simp]:
  "defs (fold index_and_append ms dc) = defs dc @ ms"
  "defsStore (fold index_and_append ms dc) = defsStore dc"
  "metricsToEsOK (fold index_and_append ms dc) = metricsToEsOK dc"
  "metricsToEsFail (fold index_and_append ms dc) = metricsToEsFail dc"
  "logged (fold index_and_append ms dc) = logged dc"
  by (induction ms arbitrary: dc) simp_all

lemma add_snd: "snd (add met tdc) = fold index_and_append met (snd tdc)"
  by (simp add: add_def)

lemma Backfill_loop_fails:
  assumes "fetch_fails_after ds c (defsStore (snd tdc)) ps e st'" and "c \<noteq> []"
  shows "Backfill_loop ds c tdc =
           Some ((fold index_and_append (concat ps) (snd tdc))
                   \<lparr> defsStore := st',
                     logged := logged (snd tdc) @ [LogError 3 ''Could not backfill from ES: %s'' [e]] \<rparr>)"
  using assms
proof (induction ps arbitrary: c tdc)
  case Nil
  then show ?case
    by (subst Backfill_loop.simps) (auto split: prod.splits option.splits)
next
  case (Cons p ps)
  obtain c' st1 where g: "GetMetrics ds c (defsStore (snd tdc)) = ((p, c', None), st1)"
    and c': "c' \<noteq> []" and rest: "fetch_fails_after ds c' st1 ps e st'"
    using Cons.prems(1) by (auto split: prod.splits)
  let ?tdc = "add p (fst tdc, (snd tdc)\<lparr>defsStore := st1\<rparr>)"
  have s: "snd ?tdc = (fold index_and_append p (snd tdc))\<lparr>defsStore := st1\<rparr>"
    by (simp add: add_snd fold_index_and_append_defsStore_update)
  have "fetch_fails_after ds c' (defsStore (snd ?tdc)) ps e st'"
    using rest by (simp add: s)
  from Cons.IH [OF this c']
  have ih: "Backfill_loop ds c' ?tdc =
           Some ((fold index_and_append (concat ps) (snd ?tdc))
                   \<lparr> defsStore := st',
                     logged := logged (snd ?tdc) @ [LogError 3 ''Could not backfill from ES: %s'' [e]] \<rparr>)" .
  have "Backfill_loop ds c tdc = Backfill_loop ds c' ?tdc"
    using Cons.prems(2) g by (subst Backfill_loop.simps) simp
  then show ?case
    unfolding ih s by (simp add: fold_index_and_append_defsStore_update)
qed

text \<open>
  C7. When the store hands out some pages (none, one or more) and then answers the
  next request of the scan with an error, \<^verbatim>\<open>Backfill\<close> returns: it logs that error,
  asks the store nothing more (the store is left in the state after the failing
  request), and the cache holds what it held before followed by the definitions of
  exactly the pages fetched before the error, indexed and appended in order.
\<close>

theorem Backfill_fetch_error:
  assumes "fetch_fails_after ds [] (defsStore dc) pages e st'"
  shows "\<exists>dc'. Backfill ds dc = Some dc' \<and>
           dc' = (fold index_and_append (concat pages) dc)
                   \<lparr> defsStore := st',
                     logged := logged dc @ [LogError 3 ''Could not backfill from ES: %s'' [e]] \<rparr> \<and>
           defs dc' = defs dc @ concat pages \<and>
           defsStore dc' = st' \<and>
           logged dc' = logged dc @ [LogError 3 ''Could not backfill from ES: %s'' [e]]"
proof (cases pages)
  case Nil
  then show ?thesis using assms
    by (auto simp add: Backfill_def split: prod.splits option.splits)
next
  case (Cons p ps)
  obtain c' st1 where g: "GetMetrics ds [] (defsStore dc) = ((p, c', None), st1)"
    and c': "c' \<noteq> []" and rest: "fetch_fails_after ds c' st1 ps e st'"
    using assms Cons by (auto split: prod.splits)
  let ?tdc = "add p (0, dc\<lparr>defsStore := st1\<rparr>)"
  have s: "snd ?tdc = (fold index_and_append p dc)\<lparr>defsStore := st1\<rparr>"
    by (simp add: add_snd fold_index_and_append_defsStore_update)
  have "fetch_fails_after ds c' (defsStore (snd ?tdc)) ps e st'"
    using rest by (simp add: s)
  from Backfill_loop_fails [OF this c']
  have l: "Backfill_loop ds c' ?tdc =
           Some ((fold index_and_append (concat ps) (snd ?tdc))
                   \<lparr> defsStore := st',
                     logged := logged (snd ?tdc) @ [LogError 3 ''Could not backfill from ES: %s'' [e]] \<rparr>)" .
  have "Backfill ds dc = Backfill_loop ds c' ?tdc"
    using g by (simp add: Backfill_def)
  then show ?thesis
    unfolding l s using Cons by (simp add: fold_index_and_append_defsStore_update)
qed


theorem Backfill_fetch_error_witness:
  "(let d1 = \<lparr> def_Id = ''a'', def_OrgId = 1, def_Name = ''host.cpu'', def_LastUpdate = 1000,
               def_Meta = () \<rparr>;
        d2 = \<lparr> def_Id = ''b'', def_OrgId = 1, def_Name = ''host.mem'', def_LastUpdate = 1010,
               def_Meta = () \<rparr>;
        d3 = \<lparr> def_Id = ''c'', def_OrgId = 2, def_Name = ''host.cpu'', def_LastUpdate = 1020,
               def_Meta = () \<rparr>;
        ds = \<lparr> GetMetrics = (\<lambda>c st.
                 if st = (0 :: nat) then (([d1, d2], ''s1'', None), 1)
                 else if st = 1 then (([d3], ''s2'', None), 2)
                 else (([], [], Some ''timeout''), Suc st)),
               IndexMetric = (\<lambda>m st. (None, st)) \<rparr>
    in fetch_fails_after ds [] 0 [[d1, d2], [d3]] ''timeout'' 3 \<and>
       Backfill ds (empty_cache 0) =
         Some \<lparr> defs = [d1, d2, d3], ById = [''a'' \<mapsto> 0, ''b'' \<mapsto> 1, ''c'' \<mapsto> 2],
                ByKey = \<lparr> names = [(1, ''host.cpu''), (1, ''host.mem''), (2, ''host.cpu'')],
                          refs = [(1, 0), (1, 1), (2, 2)] \<rparr>,
                defsStore = 3, metricsToEsOK = 0, metricsToEsFail = 0,
                logged = [LogError 3 ''Could not backfill from ES: %s'' [''timeout'']] \<rparr>)"
proof -
  let ?d1 = "\<lparr> def_Id = ''a'', def_OrgId = 1, def_Name = ''host.cpu'', def_LastUpdate = 1000,
               def_Meta = () \<rparr>"
  let ?d2 = "\<lparr> def_Id = ''b'', def_OrgId = 1, def_Name = ''host.mem'', def_LastUpdate = 1010,
               def_Meta = () \<rparr>"
  let ?d3 = "\<lparr> def_Id = ''c'', def_OrgId = 2, def_Name = ''host.cpu'', def_LastUpdate = 1020,
               def_Meta = () \<rparr>"
  let ?ds = "\<lparr> GetMetrics = (\<lambda>c st.
                 if st = (0 :: nat) then (([?d1, ?d2], ''s1'', None), 1)
                 else if st = 1 then (([?d3], ''s2'', None), 2)
                 else (([], [], Some ''timeout''), Suc st)),
               IndexMetric = (\<lambda>m st. (None, st)) \<rparr>"
  have f: "fetch_fails_after ?ds [] (defsStore (empty_cache 0 :: (unit, nat) DefCache))
             [[?d1, ?d2], [?d3]] ''timeout'' 3"
    by (simp add: empty_cache_def)
  have b: "Backfill ?ds (empty_cache 0) =
         Some \<lparr> defs = [?d1, ?d2, ?d3], ById = [''a'' \<mapsto> 0, ''b'' \<mapsto> 1, ''c'' \<mapsto> 2],
                ByKey = \<lparr> names = [(1, ''host.cpu''), (1, ''host.mem''), (2, ''host.cpu'')],
                          refs = [(1, 0), (1, 1), (2, 2)] \<rparr>,
                defsStore = 3, metricsToEsOK = 0, metricsToEsFail = 0,
                logged = [LogError 3 ''Could not backfill from ES: %s'' [''timeout'']] \<rparr>"
    using Backfill_fetch_error [OF f]
    by (simp add: empty_cache_def index_and_append_def GetOrAdd_def AddRef_def idx_New_def
          numeral_2_eq_2)
  show ?thesis using f b by (simp add: Let_def empty_cache_def)
qed

subsection \<open>Positions and identifiers\<close>

text \<open>
  C1. The claim is that in every state reached by batches of \<^verbatim>\<open>Backfill\<close> and calls of
  \<^verbatim>\<open>Add\<close> the definition at position \<open>i\<close> has the name identifier \<open>i\<close> was allocated
  for, also after a definition with a new external id and an indexed (tenant, name)
  pair is added. The code does not keep it. Three calls of \<^verbatim>\<open>Add\<close> on the empty
  cache, for the external ids a and b with the same tenant and name x and then for
  c with name y: the index gives b the identifier 0 of a, but b is appended at
  position 1; c then gets identifier 1 and is appended at position 2. Identifier
  1 was allocated for y, the definition at position 1 has name x, and \<^verbatim>\<open>Get\<close> of c
  returns the definition of b.
\<close>

theorem position_is_identifier_broken:
  "(let ds = \<lparr> GetMetrics = (\<lambda>c st. (([], [], None), st)),
               IndexMetric = (\<lambda>m st. (None, Suc st)) \<rparr>;
        a = \<lparr> md_Id = ''a'', md_OrgId = 1, md_Name = ''x'', md_Time = 1000, md_Meta = () \<rparr>;
        b = \<lparr> md_Id = ''b'', md_OrgId = 1, md_Name = ''x'', md_Time = 1000, md_Meta = () \<rparr>;
        c = \<lparr> md_Id = ''c'', md_OrgId = 1, md_Name = ''y'', md_Time = 1000, md_Meta = () \<rparr>;
        dc = \<lparr> defs = [MetricDefinitionFromMetricData a, MetricDefinitionFromMetricData b,
                       MetricDefinitionFromMetricData c],
               ById = [''a'' \<mapsto> 0, ''b'' \<mapsto> 0, ''c'' \<mapsto> 1],
               ByKey = \<lparr> names = [(1, ''x''), (1, ''y'')], refs = [(1, 0), (1, 0), (1, 1)] \<rparr>,
               defsStore = (3 :: nat), metricsToEsOK = 3, metricsToEsFail = 0, logged = [] \<rparr>
    in run_calls ds [AddCall a, AddCall b, AddCall c] (empty_cache 0) = Inr dc \<and>
       \<not> position_is_identifier dc \<and>
       names (ByKey dc) ! 1 = (1, ''y'') \<and> def_Name (defs dc ! 1) = ''x'' \<and>
       Get ''c'' dc = Inr (Some (MetricDefinitionFromMetricData b), True))"
  by (simp add: Let_def Add_def Add_create_def empty_cache_def addToES_def index_and_append_def
          GetOrAdd_def AddRef_def idx_New_def MetricDefinitionFromMetricData_def
          position_is_identifier_def Get_def numeral_2_eq_2 numeral_3_eq_3)

subsection \<open>Concurrent calls: steps, schedules and counting\<close>

text \<open>A call that runs alone is \<^verbatim>\<open>Add\<close>.\<close>

lemma Add_as_steps:
  "Add ds metric dc =
     (case Add_step ds metric Start dc of
        (p1, dc1) \<Rightarrow>
          (case Add_step ds metric p1 dc1 of
             (p2, dc2) \<Rightarrow>
               (case Add_step ds metric p2 dc2 of
                  (p3, dc3) \<Rightarrow> if p3 = Done then Inr dc3 else Inl IndexOutOfRange)))"
  by (auto simp add: Add_def Add_update_def Let_def split: option.split)

lemma sched_step_outside: "\<not> n < length (fst cfg) \<Longrightarrow> sched_step ds n cfg = cfg"
  by (simp add: sched_step_def)

lemma sched_step_inside:
  assumes "n < length ths" and "ths ! n = (m, p)"
  shows "sched_step ds n (ths, dc) = (ths[n := (m, fst (Add_step ds m p dc))], snd (Add_step ds m p dc))"
  using assms by (simp add: sched_step_def split: prod.split)

lemma sched_step_length [simp]: "length (fst (sched_step ds n cfg)) = length (fst cfg)"
  by (simp add: sched_step_def split: prod.split)

lemma sched_step_metrics [simp]: "map fst (fst (sched_step ds n cfg)) = map fst (fst cfg)"
proof -
  have "n < length (fst cfg) \<Longrightarrow> (map fst (fst cfg))[n := fst (fst cfg ! n)] = map fst (fst cfg)"
    by (metis length_map list_update_id nth_map)
  thus ?thesis by (simp add: sched_step_def map_update split: prod.split)
qed

lemma run_schedule_Nil [simp]: "run_schedule ds [] cfg = cfg"
  by (simp add: run_schedule_def)

lemma run_schedule_Cons [simp]:
  "run_schedule ds (n # ns) cfg = run_schedule ds ns (sched_step ds n cfg)"
  by (simp add: run_schedule_def)

lemma run_schedule_metrics [simp]: "map fst (fst (run_schedule ds sched cfg)) = map fst (fst cfg)"
  by (induction sched arbitrary: cfg) simp_all

lemma run_schedule_length [simp]: "length (fst (run_schedule ds sched cfg)) = length (fst cfg)"
  by (induction sched arbitrary: cfg) simp_all

lemma done_count_update:
  "n < length ths \<Longrightarrow>
     done_count (ths[n := t]) + (if snd (ths ! n) = Done then 1 else 0)
       = done_count ths + (if snd t = Done then 1 else 0)"
proof (induction ths arbitrary: n)
  case Nil
  then show ?case by simp
next
  case (Cons a ths)
  show ?case
  proof (cases n)
    case 0
    then show ?thesis by (simp add: done_count_def)
  next
    case (Suc k)
    then have "k < length ths" using Cons.prems by simp
    from Cons.IH [OF this] show ?thesis using Suc by (simp add: done_count_def)
  qed
qed

lemma done_count_le: "done_count ths \<le> length ths"
  by (simp add: done_count_def)

lemma returned_done_count: "returned ths \<Longrightarrow> done_count ths = length ths"
  by (induction ths) (simp_all add: returned_def done_count_def)

lemma write_throughs_addToES [simp]:
  "write_throughs (addToES ds mdef dc) = Suc (write_throughs dc)"
  using addToES_count [of ds mdef dc] by (simp add: write_throughs_def)

lemma write_throughs_index_and_append [simp]:
  "write_throughs (index_and_append d dc) = write_throughs dc"
  by (simp add: write_throughs_def)

lemma write_throughs_defs_update [simp]:
  "write_throughs (dc\<lparr>defs := xs\<rparr>) = write_throughs dc"
  by (simp add: write_throughs_def)

text \<open>One step: what it writes through and which call returns.\<close>

lemma sched_step_account:
  "write_throughs (snd (sched_step ds n cfg))
     = write_throughs (snd cfg) + (if creating n cfg then 1 else 0)
         + (if refreshing n cfg then 1 else 0) \<and>
   done_count (fst cfg) + (if creating n cfg then 1 else 0) + (if refreshing n cfg then 1 else 0)
     \<le> done_count (fst (sched_step ds n cfg))"
proof (cases "n < length (fst cfg)")
  case False
  then show ?thesis by (simp add: sched_step_outside creating_def refreshing_def)
next
  case True
  obtain ths dc where cfg: "cfg = (ths, dc)" by (cases cfg)
  obtain m p where t: "ths ! n = (m, p)" by (cases "ths ! n")
  have n: "n < length ths" using True cfg by simp
  note st = sched_step_inside [OF n t, of ds dc]
  note dcu = done_count_update [OF n, of "(m, fst (Add_step ds m p dc))"]
  show ?thesis
  proof (cases p)
    case Start
    then show ?thesis using n t dcu unfolding cfg st
      by (simp add: creating_def refreshing_def split: option.split)
  next
    case (Known i)
    then show ?thesis using n t dcu unfolding cfg st
      by (simp add: creating_def refreshing_def)
  next
    case (Update i)
    then show ?thesis using n t dcu unfolding cfg st
      by (simp add: creating_def refreshing_def Add_update_def Let_def)
  next
    case Create
    then show ?thesis using n t dcu unfolding cfg st
      by (simp add: creating_def refreshing_def Add_create_def split: option.split)
  next
    case Done
    then show ?thesis using n t dcu unfolding cfg st
      by (simp add: creating_def refreshing_def)
  next
    case Panicked
    then show ?thesis using n t dcu unfolding cfg st
      by (simp add: creating_def refreshing_def)
  qed
qed

lemma run_schedule_account:
  "write_throughs (snd (run_schedule ds sched cfg))
     = write_throughs (snd cfg) + creations ds sched cfg + refreshes ds sched cfg \<and>
   done_count (fst cfg) + creations ds sched cfg + refreshes ds sched cfg
     \<le> done_count (fst (run_schedule ds sched cfg))"
proof (induction sched arbitrary: cfg)
  case Nil
  then show ?case by simp
next
  case (Cons n ns)
  from Cons.IH [of "sched_step ds n cfg"] sched_step_account [of ds n cfg]
  show ?case by (simp split: if_splits)
qed

lemma sched_step_0:
  "sched_step ds 0 ((m, p) # ths, dc)
     = ((m, fst (Add_step ds m p dc)) # ths, snd (Add_step ds m p dc))"
  by (simp add: sched_step_def split: prod.split)

lemma sched_step_Suc:
  "sched_step ds (Suc n) (t # ths, dc)
     = (t # fst (sched_step ds n (ths, dc)), snd (sched_step ds n (ths, dc)))"
  by (simp add: sched_step_def split: prod.split)

subsection \<open>Concurrent calls with an unregistered id\<close>

lemma list_all_update:
  "list_all P xs \<Longrightarrow> P v \<Longrightarrow> list_all P (xs[n := v])"
  using set_update_subset_insert [of xs n v] by (auto simp add: list_all_iff)

lemma list_all_nth: "list_all P xs \<Longrightarrow> n < length xs \<Longrightarrow> P (xs ! n)"
  by (simp add: list_all_length)

text \<open>Once the id is registered, no step creates, and no step changes \<open>ById\<close> at the id
  or the length of the slice.\<close>

lemma sched_step_registered:
  assumes reg: "ById dc x \<noteq> None" and ids: "list_all (\<lambda>m. md_Id m = x) (map fst ths)"
  shows "\<not> creating n (ths, dc) \<and>
         ById (snd (sched_step ds n (ths, dc))) x \<noteq> None \<and>
         length (defs (snd (sched_step ds n (ths, dc)))) = length (defs dc)"
proof (cases "n < length ths")
  case False
  then show ?thesis using reg by (simp add: sched_step_outside creating_def)
next
  case True
  obtain m p where t: "ths ! n = (m, p)" by (cases "ths ! n")
  have "md_Id (map fst ths ! n) = x" using ids True by (simp add: list_all_length)
  hence idm: "md_Id m = x" using True t by simp
  note st = sched_step_inside [OF True t, of ds dc]
  show ?thesis
  proof (cases p)
    case (Update i)
    then show ?thesis using reg idm t True unfolding st
      by (auto simp add: creating_def Add_update_def Let_def)
  next
    case Create
    then show ?thesis using reg idm t True unfolding st
      by (auto simp add: creating_def Add_create_def)
  qed (use reg idm t True in \<open>auto simp add: st creating_def split: option.split\<close>)
qed

lemma run_schedule_registered:
  assumes "ById dc x \<noteq> None" and "list_all (\<lambda>m. md_Id m = x) (map fst ths)"
  shows "creations ds sched (ths, dc) = 0 \<and>
         ById (snd (run_schedule ds sched (ths, dc))) x \<noteq> None \<and>
         length (defs (snd (run_schedule ds sched (ths, dc)))) = length (defs dc)"
  using assms
proof (induction sched arbitrary: ths dc)
  case Nil
  then show ?case by simp
next
  case (Cons n ns)
  obtain ths' dc' where s: "sched_step ds n (ths, dc) = (ths', dc')"
    by (cases "sched_step ds n (ths, dc)")
  from sched_step_registered [OF Cons.prems, of n ds]
  have a: "\<not> creating n (ths, dc)" and b: "ById dc' x \<noteq> None"
    and c: "length (defs dc') = length (defs dc)" by (simp_all add: s)
  have "map fst ths' = map fst ths"
    using sched_step_metrics [of ds n "(ths, dc)"] by (simp add: s)
  hence d: "list_all (\<lambda>m. md_Id m = x) (map fst ths')" using Cons.prems(2) by simp
  from Cons.IH [OF b d] a c show ?case by (simp add: s)
qed

text \<open>Before the id is registered, every call is at its lookup or waits for the lock
  of the creating section; the first that gets it creates.\<close>

lemma run_schedule_unregistered:
  assumes "ById dc x = None" and "list_all (\<lambda>m. md_Id m = x) (map fst ths)"
      and "list_all (\<lambda>t. snd t = Start \<or> snd t = Create) ths" and "ths \<noteq> []"
      and "returned (fst (run_schedule ds sched (ths, dc)))"
  shows "creations ds sched (ths, dc) = 1 \<and>
         ById (snd (run_schedule ds sched (ths, dc))) x \<noteq> None \<and>
         length (defs (snd (run_schedule ds sched (ths, dc)))) = Suc (length (defs dc))"
  using assms
proof (induction sched arbitrary: ths dc)
  case Nil
  obtain t ts where "ths = t # ts" using Nil.prems(4) by (cases ths) auto
  then show ?case using Nil.prems(3,5) by (auto simp add: returned_def)
next
  case (Cons n ns)
  show ?case
  proof (cases "n < length ths")
    case False
    hence s: "sched_step ds n (ths, dc) = (ths, dc)" by (simp add: sched_step_outside)
    have "\<not> creating n (ths, dc)" using False by (simp add: creating_def)
    moreover have "returned (fst (run_schedule ds ns (ths, dc)))" using Cons.prems(5) s by simp
    ultimately show ?thesis
      using Cons.IH [OF Cons.prems(1,2,3,4)] s by simp
  next
    case True
    obtain m p where t: "ths ! n = (m, p)" by (cases "ths ! n")
    have "md_Id (map fst ths ! n) = x" using Cons.prems(2) True by (simp add: list_all_length)
    hence idm: "md_Id m = x" using True t by simp
    have "snd (ths ! n) = Start \<or> snd (ths ! n) = Create"
      using list_all_nth [OF Cons.prems(3) True] .
    hence p: "p = Start \<or> p = Create" using t by simp
    note st = sched_step_inside [OF True t, of ds dc]
    from p show ?thesis
    proof
      assume ps: "p = Start"
      let ?ths = "ths[n := (m, Create)]"
      have s: "sched_step ds n (ths, dc) = (?ths, dc)"
        using st ps idm Cons.prems(1) by simp
      have a: "\<not> creating n (ths, dc)" using t ps by (simp add: creating_def)
      have "map fst ?ths = map fst ths"
        using sched_step_metrics [of ds n "(ths, dc)"] by (simp add: s)
      hence b: "list_all (\<lambda>m. md_Id m = x) (map fst ?ths)" using Cons.prems(2) by simp
      have c: "list_all (\<lambda>t. snd t = Start \<or> snd t = Create) ?ths"
        using Cons.prems(3) by (rule list_all_update) simp
      have d: "?ths \<noteq> []" using Cons.prems(4) by simp
      have e: "returned (fst (run_schedule ds ns (?ths, dc)))" using Cons.prems(5) s by simp
      from Cons.IH [OF Cons.prems(1) b c d e] a show ?thesis by (simp add: s)
    next
      assume pc: "p = Create"
      let ?mdef = "MetricDefinitionFromMetricData m"
      let ?dc = "index_and_append ?mdef (addToES ds ?mdef dc)"
      let ?ths = "ths[n := (m, Done)]"
      have s: "sched_step ds n (ths, dc) = (?ths, ?dc)"
        using st pc idm Cons.prems(1) by (simp add: Add_create_def)
      have a: "creating n (ths, dc)" using t pc True idm Cons.prems(1) by (simp add: creating_def)
      have r: "ById ?dc x \<noteq> None" using idm by simp
      have l: "length (defs ?dc) = Suc (length (defs dc))" by simp
      have "map fst ?ths = map fst ths"
        using sched_step_metrics [of ds n "(ths, dc)"] by (simp add: s)
      hence b: "list_all (\<lambda>m. md_Id m = x) (map fst ?ths)" using Cons.prems(2) by simp
      from run_schedule_registered [OF r b, of ds ns] a l show ?thesis by (simp add: s)
    qed
  qed
qed

lemma map_fst_update_same:
  "n < length ths \<Longrightarrow> ths ! n = (m, p) \<Longrightarrow> map fst (ths[n := (m, p')]) = map fst ths"
  by (metis fst_conv length_map list_update_id map_update nth_map)

lemma create_inv_pc:
  assumes inv: "create_inv x k ms dc0 (ths, dc)"
      and n: "n < length ths" and t: "ths ! n = (m, p)"
      and p': "p' = Create \<or> (ById dc x = Some k \<and> (p' = Known k \<or> p' = Done))"
  shows "create_inv x k ms dc0 (ths[n := (m, p')], dc)"
proof -
  have a: "map fst (ths[n := (m, p')]) = ms"
    using inv map_fst_update_same [OF n t] by (simp add: create_inv_def)
  have b: "list_all (\<lambda>t. snd t = Start \<or> snd t = Create) ths \<Longrightarrow> p' = Create \<Longrightarrow>
             list_all (\<lambda>t. snd t = Start \<or> snd t = Create) (ths[n := (m, p')])"
    by (rule list_all_update) simp_all
  have c: "list_all (\<lambda>t. snd t = Start \<or> snd t = Create \<or> snd t = Known k \<or> snd t = Update k
                      \<or> snd t = Done) ths \<Longrightarrow>
           list_all (\<lambda>t. snd t = Start \<or> snd t = Create \<or> snd t = Known k \<or> snd t = Update k
                      \<or> snd t = Done) (ths[n := (m, p')])"
    using p' by (intro list_all_update) auto
  show ?thesis using inv a b c p' by (auto simp add: create_inv_def)
qed

lemma create_inv_step:
  assumes ms: "list_all (\<lambda>m. md_Id m = x \<and> 0 \<le> sint (md_Time m) \<and>
                 fst (GetOrAdd (ByKey dc0) (md_OrgId m) (md_Name m)) = k) ms"
      and win: "within_window ms"
      and inv: "create_inv x k ms dc0 cfg"
  shows "create_inv x k ms dc0 (sched_step ds n cfg)"
proof (cases "n < length (fst cfg)")
  case False
  then show ?thesis using inv by (simp add: sched_step_outside)
next
  case True
  obtain ths dc where cfg: "cfg = (ths, dc)" by (cases cfg)
  obtain m p where t: "ths ! n = (m, p)" by (cases "ths ! n")
  have n: "n < length ths" using True cfg by simp
  have inv': "create_inv x k ms dc0 (ths, dc)" using inv cfg by simp
  have fst: "map fst ths = ms" using inv' by (simp add: create_inv_def)
  have mm: "m \<in> set ms"
  proof -
    have "map fst ths ! n = m" using n t by simp
    thus ?thesis using n fst by (metis length_map nth_mem)
  qed
  have idm: "md_Id m = x" and pos: "0 \<le> sint (md_Time m)"
    and slot: "fst (GetOrAdd (ByKey dc0) (md_OrgId m) (md_Name m)) = k"
    using ms mm by (auto simp add: list_all_iff)
  have nowrap: "- (2 ^ 63) + 21600 \<le> sint (md_Time m)" using pos by simp
  note stale_m = stale_iff [OF nowrap]
  note st = sched_step_inside [OF n t, of ds dc]
  let ?mdef = "MetricDefinitionFromMetricData m"
  consider (unregistered) "ById dc x = None" "ByKey dc = ByKey dc0" "length (defs dc) = k"
        "write_throughs dc = write_throughs dc0" "p = Start \<or> p = Create"
    | (registered) "ById dc x = Some k" "length (defs dc) = Suc k"
        "list_ex (\<lambda>m. defs dc ! k = MetricDefinitionFromMetricData m) ms"
        "p = Start \<or> p = Create \<or> p = Known k \<or> p = Update k \<or> p = Done"
  proof -
    have "snd (ths ! n) = Start \<or> snd (ths ! n) = Create \<or> snd (ths ! n) = Known k
            \<or> snd (ths ! n) = Update k \<or> snd (ths ! n) = Done"
      using inv' n by (auto simp add: create_inv_def list_all_length)
    moreover have "ById dc x = None \<Longrightarrow> snd (ths ! n) = Start \<or> snd (ths ! n) = Create"
      using inv' n by (auto simp add: create_inv_def list_all_length)
    ultimately show ?thesis using that inv' t by (auto simp add: create_inv_def)
  qed
  thus ?thesis
  proof cases
    case unregistered
    from unregistered(5) show ?thesis
    proof
      assume "p = Start"
      hence "sched_step ds n cfg = (ths[n := (m, Create)], dc)"
        unfolding cfg st using unregistered(1) idm by simp
      thus ?thesis using create_inv_pc [OF inv' n t, of Create] by simp
    next
      assume pc: "p = Create"
      let ?dc = "index_and_append ?mdef (addToES ds ?mdef dc)"
      let ?ths = "ths[n := (m, Done)]"
      have s: "sched_step ds n cfg = (?ths, ?dc)"
        unfolding cfg st using pc unregistered(1) idm by (simp add: Add_create_def)
      have a: "map fst ?ths = ms" using fst map_fst_update_same [OF n t] by simp
      have b: "ById ?dc x = Some k" using idm slot unregistered(2) by simp
      have c: "length (defs ?dc) = Suc k" using unregistered(3) by simp
      have "defs ?dc ! k = ?mdef" using unregistered(3) by (auto simp add: nth_append)
      hence d: "list_ex (\<lambda>m. defs ?dc ! k = MetricDefinitionFromMetricData m) ms"
        using mm unfolding list_ex_iff by blast
      have e: "write_throughs ?dc = Suc (write_throughs dc0)" using unregistered(4) by simp
      have "list_all (\<lambda>t. snd t = Start \<or> snd t = Create) ths"
        using inv' unregistered(1) by (auto simp add: create_inv_def)
      hence "list_all (\<lambda>t. snd t = Start \<or> snd t = Create \<or> snd t = Known k
               \<or> snd t = Update k \<or> snd t = Done) ths"
        by (auto simp add: list_all_iff)
      hence f: "list_all (\<lambda>t. snd t = Start \<or> snd t = Create \<or> snd t = Known k
               \<or> snd t = Update k \<or> snd t = Done) ?ths"
        by (rule list_all_update) simp
      show ?thesis unfolding s using a b c d e f by (simp add: create_inv_def)
    qed
  next
    case registered
    have byid: "ById dc (md_Id m) = Some k" using registered(1) idm by simp
    have kd: "k < length (defs dc)" using registered(2) by simp
    obtain ma where ma: "ma \<in> set ms" and sl: "defs dc ! k = MetricDefinitionFromMetricData ma"
      using registered(3) unfolding list_ex_iff by blast
    have "sint (md_Time m) \<le> sint (md_Time ma) + 21600"
      using win mm ma unfolding within_window_def list_all_iff by blast
    hence fresh: "\<not> stale (defs dc ! k) m" by (simp add: stale_m sl)
    have "fst (Add_step ds m p dc) = Known k \<or> fst (Add_step ds m p dc) = Done"
      and same: "snd (Add_step ds m p dc) = dc"
      using registered(4) byid kd fresh by (auto simp add: Add_create_def Add_update_def)
    hence "create_inv x k ms dc0 (ths[n := (m, fst (Add_step ds m p dc))], dc)"
      using create_inv_pc [OF inv' n t, of "fst (Add_step ds m p dc)"] registered(1) by blast
    thus ?thesis unfolding cfg st same .
  qed
qed

lemma create_inv_run:
  assumes "list_all (\<lambda>m. md_Id m = x \<and> 0 \<le> sint (md_Time m) \<and>
                 fst (GetOrAdd (ByKey dc0) (md_OrgId m) (md_Name m)) = k) ms"
      and "within_window ms"
      and "create_inv x k ms dc0 cfg"
  shows "create_inv x k ms dc0 (run_schedule ds sched cfg)"
  using assms(3)
proof (induction sched arbitrary: cfg)
  case Nil
  then show ?case by simp
next
  case (Cons n ns)
  have "create_inv x k ms dc0 (sched_step ds n cfg)"
    using assms(1,2) Cons.prems by (rule create_inv_step)
  from Cons.IH [OF this] show ?case by simp
qed

lemma create_inv_initial:
  "ById dc0 x = None \<Longrightarrow> create_inv x (length (defs dc0)) ms dc0 (calls ms, dc0)"
  by (simp add: create_inv_def calls_def comp_def list_all_iff)

text \<open>The timestamps of the writing steps.\<close>

lemma refresh_times_length: "length (refresh_times ds sched cfg) = refreshes ds sched cfg"
  by (induction sched arbitrary: cfg) simp_all

lemma creating_not_refreshing: "creating n cfg \<Longrightarrow> \<not> refreshing n cfg"
  by (auto simp add: creating_def refreshing_def)

lemma write_times_length:
  "length (write_times ds sched cfg) = creations ds sched cfg + refreshes ds sched cfg"
  by (induction sched arbitrary: cfg) (auto simp add: creating_not_refreshing)

lemma write_times_subset:
  "set (write_times ds sched cfg) \<subseteq> md_Time ` set (map fst (fst cfg))"
proof (induction sched arbitrary: cfg)
  case Nil
  then show ?case by simp
next
  case (Cons n ns)
  have a: "set (write_times ds ns (sched_step ds n cfg)) \<subseteq> md_Time ` set (map fst (fst cfg))"
    using Cons.IH [of "sched_step ds n cfg"] by simp
  have b: "creating n cfg \<or> refreshing n cfg \<Longrightarrow> fst (fst cfg ! n) \<in> set (map fst (fst cfg))"
    by (auto simp add: creating_def refreshing_def)
  show ?case using a b by auto
qed

lemma refresh_times_subset:
  "set (refresh_times ds sched cfg) \<subseteq> md_Time ` set (map fst (fst cfg))"
proof (induction sched arbitrary: cfg)
  case Nil
  then show ?case by simp
next
  case (Cons n ns)
  have a: "set (refresh_times ds ns (sched_step ds n cfg)) \<subseteq> md_Time ` set (map fst (fst cfg))"
    using Cons.IH [of "sched_step ds n cfg"] by simp
  have b: "refreshing n cfg \<Longrightarrow> fst (fst cfg ! n) \<in> set (map fst (fst cfg))"
    by (auto simp add: refreshing_def)
  show ?case using a b by auto
qed

text \<open>On timestamps whose subtraction does not wrap around, the staleness test is the
  integer one, and a chain of stale steps is spaced by more than a window.\<close>

lemma spaced_if_successively_stale:
  assumes "successively (\<lambda>a b. word_sless a (b - 21600)) (xs :: 64 word list)"
      and "\<forall>b\<in>set xs. - (2 ^ 63) + 21600 \<le> sint b"
  shows "sorted_wrt (\<lambda>a b. sint a + 21600 < sint b) xs"
proof -
  have gap: "sint a + 21600 < sint b"
    if "b \<in> set xs" and "word_sless a (b - 21600)" for a b :: "64 word"
  proof -
    have "- (2 ^ 63) + 21600 \<le> sint b" using assms(2) that(1) by blast
    hence "sint (b - 21600) = sint b - 21600" by (rule sint_sub_21600)
    thus ?thesis using that(2) by (simp add: word_sless_alt)
  qed
  have "successively (\<lambda>a b. sint a + 21600 < sint b) xs"
    using assms(1) by (rule successively_mono) (simp add: gap)
  moreover have "transp (\<lambda>a b :: 64 word. sint a + 21600 < sint b)"
    by (auto simp add: transp_def)
  ultimately show ?thesis by (simp add: successively_conv_sorted_wrt)
qed

lemma sched_step_registered_slot:
  assumes reg: "ById dc x = Some k" and ids: "list_all (\<lambda>m. md_Id m = x) (map fst ths)"
      and pcs: "list_all (\<lambda>t. snd t = Start \<or> snd t = Create \<or> snd t = Known k
                  \<or> snd t = Update k \<or> snd t = Done \<or> snd t = Panicked) ths"
  shows "\<not> creating n (ths, dc) \<and>
         ById (snd (sched_step ds n (ths, dc))) x = Some k \<and>
         list_all (\<lambda>t. snd t = Start \<or> snd t = Create \<or> snd t = Known k
                  \<or> snd t = Update k \<or> snd t = Done \<or> snd t = Panicked)
           (fst (sched_step ds n (ths, dc))) \<and>
         (if refreshing n (ths, dc)
          then stale (defs dc ! k) (fst (ths ! n)) \<and>
               def_LastUpdate (defs (snd (sched_step ds n (ths, dc))) ! k)
                 = md_Time (fst (ths ! n))
          else snd (sched_step ds n (ths, dc)) = dc)"
proof (cases "n < length ths")
  case False
  then show ?thesis using reg pcs by (simp add: sched_step_outside creating_def refreshing_def)
next
  case True
  obtain m p where t: "ths ! n = (m, p)" by (cases "ths ! n")
  have "md_Id (map fst ths ! n) = x" using ids True by (simp add: list_all_length)
  hence idm: "md_Id m = x" using True t by simp
  have "snd (ths ! n) = Start \<or> snd (ths ! n) = Create \<or> snd (ths ! n) = Known k
          \<or> snd (ths ! n) = Update k \<or> snd (ths ! n) = Done \<or> snd (ths ! n) = Panicked"
    using list_all_nth [OF pcs True] .
  hence p: "p = Start \<or> p = Create \<or> p = Known k \<or> p = Update k \<or> p = Done \<or> p = Panicked"
    using t by simp
  note st = sched_step_inside [OF True t, of ds dc]
  have upd: "list_all (\<lambda>t. snd t = Start \<or> snd t = Create \<or> snd t = Known k
                  \<or> snd t = Update k \<or> snd t = Done \<or> snd t = Panicked) (ths[n := (m, q)])"
    if "q = Known k \<or> q = Update k \<or> q = Done \<or> q = Panicked" for q
    using pcs by (rule list_all_update) (use that in auto)
  from p show ?thesis
  proof (elim disjE)
    assume "p = Start"
    thus ?thesis using reg idm t True upd [of "Known k"] unfolding st
      by (simp add: creating_def refreshing_def)
  next
    assume "p = Create"
    thus ?thesis using reg idm t True upd [of Done] unfolding st
      by (simp add: creating_def refreshing_def Add_create_def)
  next
    assume "p = Known k"
    thus ?thesis using reg idm t True upd [of "Update k"] upd [of Done] upd [of Panicked]
      unfolding st by (simp add: creating_def refreshing_def)
  next
    assume "p = Update k"
    thus ?thesis using reg idm t True upd [of Done] upd [of Panicked] unfolding st
      by (simp add: creating_def refreshing_def Add_update_def Let_def)
  next
    assume "p = Done"
    thus ?thesis using reg idm t True upd [of Done] unfolding st
      by (simp add: creating_def refreshing_def)
  next
    assume "p = Panicked"
    thus ?thesis using reg idm t True upd [of Panicked] unfolding st
      by (simp add: creating_def refreshing_def)
  qed
qed

lemma refresh_times_registered:
  assumes "ById dc x = Some k" and "list_all (\<lambda>m. md_Id m = x) (map fst ths)"
      and "list_all (\<lambda>t. snd t = Start \<or> snd t = Create \<or> snd t = Known k
                  \<or> snd t = Update k \<or> snd t = Done \<or> snd t = Panicked) ths"
  shows "successively (\<lambda>a b. word_sless a (b - 21600))
           (def_LastUpdate (defs dc ! k) # refresh_times ds sched (ths, dc)) \<and>
         write_times ds sched (ths, dc) = refresh_times ds sched (ths, dc)"
  using assms
proof (induction sched arbitrary: ths dc)
  case Nil
  then show ?case by simp
next
  case (Cons n ns)
  obtain ths' dc' where s: "sched_step ds n (ths, dc) = (ths', dc')"
    by (cases "sched_step ds n (ths, dc)")
  note step = sched_step_registered_slot [OF Cons.prems, of n ds, unfolded s fst_conv snd_conv]
  have nc: "\<not> creating n (ths, dc)" and reg': "ById dc' x = Some k"
    and pcs': "list_all (\<lambda>t. snd t = Start \<or> snd t = Create \<or> snd t = Known k
                  \<or> snd t = Update k \<or> snd t = Done \<or> snd t = Panicked) ths'"
    using step by simp_all
  have eff: "if refreshing n (ths, dc)
          then stale (defs dc ! k) (fst (ths ! n)) \<and>
               def_LastUpdate (defs dc' ! k) = md_Time (fst (ths ! n))
          else dc' = dc"
    using step by blast
  have "map fst ths' = map fst ths"
    using sched_step_metrics [of ds n "(ths, dc)"] by (simp add: s)
  hence ids': "list_all (\<lambda>m. md_Id m = x) (map fst ths')" using Cons.prems(2) by simp
  note ih = Cons.IH [OF reg' ids' pcs']
  show ?case
  proof (cases "refreshing n (ths, dc)")
    case True
    hence "word_sless (def_LastUpdate (defs dc ! k)) (md_Time (fst (ths ! n)) - 21600)"
      and "def_LastUpdate (defs dc' ! k) = md_Time (fst (ths ! n))"
      using eff by (simp_all add: stale_def)
    thus ?thesis using ih True nc by (simp add: s)
  next
    case False
    hence "dc' = dc" using eff by simp
    thus ?thesis using ih False nc by (simp add: s)
  qed
qed

lemma write_times_unregistered:
  assumes "ById dc x = None" and "list_all (\<lambda>m. md_Id m = x) (map fst ths)"
      and "list_all (\<lambda>t. snd t = Start \<or> snd t = Create) ths"
  shows "successively (\<lambda>a b. word_sless a (b - 21600)) (refresh_times ds sched (ths, dc)) \<and>
         (list_all (\<lambda>m. fst (GetOrAdd (ByKey dc) (md_OrgId m) (md_Name m)) = length (defs dc))
            (map fst ths)
          \<longrightarrow> successively (\<lambda>a b. word_sless a (b - 21600)) (write_times ds sched (ths, dc)))"
  using assms
proof (induction sched arbitrary: ths)
  case Nil
  then show ?case by simp
next
  case (Cons n ns)
  show ?case
  proof (cases "n < length ths")
    case False
    hence s: "sched_step ds n (ths, dc) = (ths, dc)" by (simp add: sched_step_outside)
    have "\<not> creating n (ths, dc)" "\<not> refreshing n (ths, dc)"
      using False by (simp_all add: creating_def refreshing_def)
    thus ?thesis using Cons.IH [OF Cons.prems] s by simp
  next
    case True
    obtain m p where t: "ths ! n = (m, p)" by (cases "ths ! n")
    have "md_Id (map fst ths ! n) = x" using Cons.prems(2) True by (simp add: list_all_length)
    hence idm: "md_Id m = x" using True t by simp
    have "snd (ths ! n) = Start \<or> snd (ths ! n) = Create"
      using list_all_nth [OF Cons.prems(3) True] .
    hence p: "p = Start \<or> p = Create" using t by simp
    have nr: "\<not> refreshing n (ths, dc)" using p t by (auto simp add: refreshing_def)
    note st = sched_step_inside [OF True t, of ds dc]
    from p show ?thesis
    proof
      assume ps: "p = Start"
      let ?ths = "ths[n := (m, Create)]"
      have s: "sched_step ds n (ths, dc) = (?ths, dc)"
        using st ps idm Cons.prems(1) by simp
      have nc: "\<not> creating n (ths, dc)" using t ps by (simp add: creating_def)
      have f: "map fst ?ths = map fst ths" using map_fst_update_same [OF True t] .
      hence b: "list_all (\<lambda>m. md_Id m = x) (map fst ?ths)" using Cons.prems(2) by simp
      have c: "list_all (\<lambda>t. snd t = Start \<or> snd t = Create) ?ths"
        using Cons.prems(3) by (rule list_all_update) simp
      from Cons.IH [OF Cons.prems(1) b c] nc nr show ?thesis by (simp add: s f)
    next
      assume pc: "p = Create"
      let ?mdef = "MetricDefinitionFromMetricData m"
      let ?dc = "index_and_append ?mdef (addToES ds ?mdef dc)"
      let ?ths = "ths[n := (m, Done)]"
      let ?k = "fst (GetOrAdd (ByKey dc) (md_OrgId m) (md_Name m))"
      have s: "sched_step ds n (ths, dc) = (?ths, ?dc)"
        using st pc idm Cons.prems(1) by (simp add: Add_create_def)
      have cr: "creating n (ths, dc)"
        using t pc True idm Cons.prems(1) by (simp add: creating_def)
      have r: "ById ?dc x = Some ?k" using idm by simp
      have f: "map fst ?ths = map fst ths" using map_fst_update_same [OF True t] .
      hence b: "list_all (\<lambda>m. md_Id m = x) (map fst ?ths)" using Cons.prems(2) by simp
      have "list_all (\<lambda>t. snd t = Start \<or> snd t = Create \<or> snd t = Known ?k
                  \<or> snd t = Update ?k \<or> snd t = Done \<or> snd t = Panicked) ths"
        using Cons.prems(3) by (auto simp add: list_all_iff)
      hence c: "list_all (\<lambda>t. snd t = Start \<or> snd t = Create \<or> snd t = Known ?k
                  \<or> snd t = Update ?k \<or> snd t = Done \<or> snd t = Panicked) ?ths"
        by (rule list_all_update) simp
      from refresh_times_registered [OF r b c, of ds ns]
      have chain: "successively (\<lambda>a b. word_sless a (b - 21600))
                     (def_LastUpdate (defs ?dc ! ?k) # refresh_times ds ns (?ths, ?dc))"
        and same: "write_times ds ns (?ths, ?dc) = refresh_times ds ns (?ths, ?dc)"
        by simp_all
      have rest: "successively (\<lambda>a b. word_sless a (b - 21600)) (refresh_times ds ns (?ths, ?dc))"
        using chain by (auto simp add: successively_Cons)
      have whole: "successively (\<lambda>a b. word_sless a (b - 21600))
                     (md_Time m # refresh_times ds ns (?ths, ?dc))"
        if "list_all (\<lambda>m. fst (GetOrAdd (ByKey dc) (md_OrgId m) (md_Name m)) = length (defs dc))
              (map fst ths)"
      proof -
        have "fst (GetOrAdd (ByKey dc) (md_OrgId (map fst ths ! n)) (md_Name (map fst ths ! n)))
                = length (defs dc)"
          using that True by (simp add: list_all_length)
        hence "?k = length (defs dc)" using True t by simp
        hence "defs ?dc ! ?k = ?mdef" by (simp add: nth_append)
        thus ?thesis using chain by simp
      qed
      show ?thesis using rest whole cr nr t by (simp add: s same)
    qed
  qed
qed

text \<open>
  C6. Calls of \<^verbatim>\<open>Add\<close> that all carry one external id which \<^verbatim>\<open>ById\<close> does not hold
  run concurrently, their sections under the lock interleaved by any schedule.
  When all of them have returned, exactly one step of the run was a creating step,
  so \<^verbatim>\<open>addToES\<close> was called exactly once for the creation: the slice is one longer and
  the id is registered. Every other write-through of the run was made by a
  refreshing step, and no call wrote through more than once. The refreshing steps
  are at most one per freshness window: each of them found the timestamp written by
  the one before stale in the test of line 185, so that, where that subtraction
  does not wrap around, any two calls that refreshed have timestamps more than
  21600 seconds apart. When the index answers the calls' tenant and name with the
  next position of the slice, the creating call is the head of that chain, and any
  two calls that wrote through are more than 21600 seconds apart. So when,
  moreover, the timestamps lie within one freshness window and are not negative,
  the run makes exactly one write-through.
\<close>

theorem concurrent_create_once:
  assumes new: "ById dc0 x = None" and ne: "ms \<noteq> []"
      and ids: "list_all (\<lambda>m. md_Id m = x) ms"
      and run: "run_schedule ds sched (calls ms, dc0) = (ths, dc)" and ret: "returned ths"
  shows "creations ds sched (calls ms, dc0) = 1 \<and>
         write_throughs dc = write_throughs dc0 + 1 + refreshes ds sched (calls ms, dc0) \<and>
         1 + refreshes ds sched (calls ms, dc0) \<le> length ms \<and>
         length (defs dc) = Suc (length (defs dc0)) \<and>
         ById dc x \<noteq> None \<and>
         length (refresh_times ds sched (calls ms, dc0)) = refreshes ds sched (calls ms, dc0) \<and>
         successively (\<lambda>a b. word_sless a (b - 21600)) (refresh_times ds sched (calls ms, dc0)) \<and>
         (list_all (\<lambda>m. - (2 ^ 63) + 21600 \<le> sint (md_Time m)) ms
          \<longrightarrow> sorted_wrt (\<lambda>a b. sint a + 21600 < sint b)
                (refresh_times ds sched (calls ms, dc0))) \<and>
         (list_all (\<lambda>m. fst (GetOrAdd (ByKey dc0) (md_OrgId m) (md_Name m)) = length (defs dc0)) ms
          \<longrightarrow> length (write_times ds sched (calls ms, dc0))
                = 1 + refreshes ds sched (calls ms, dc0) \<and>
              successively (\<lambda>a b. word_sless a (b - 21600))
                (write_times ds sched (calls ms, dc0)) \<and>
              (list_all (\<lambda>m. - (2 ^ 63) + 21600 \<le> sint (md_Time m)) ms
               \<longrightarrow> sorted_wrt (\<lambda>a b. sint a + 21600 < sint b)
                     (write_times ds sched (calls ms, dc0)))) \<and>
         (within_window ms \<and>
          list_all (\<lambda>m. 0 \<le> sint (md_Time m) \<and>
             fst (GetOrAdd (ByKey dc0) (md_OrgId m) (md_Name m)) = length (defs dc0)) ms
          \<longrightarrow> write_throughs dc = write_throughs dc0 + 1 \<and>
              ById dc x = Some (length (defs dc0)))"
proof -
  let ?cfg = "(calls ms, dc0)"
  have a: "map fst (calls ms) = ms" by (simp add: calls_def comp_def)
  have b: "list_all (\<lambda>t. snd t = Start \<or> snd t = Create) (calls ms)"
    by (simp add: calls_def list_all_iff)
  have c: "calls ms \<noteq> []" using ne by (simp add: calls_def)
  have d: "returned (fst (run_schedule ds sched ?cfg))" using run ret by simp
  have ids': "list_all (\<lambda>m. md_Id m = x) (map fst (calls ms))" using ids a by simp
  from run_schedule_unregistered [OF new ids' b c d]
  have cr: "creations ds sched ?cfg = 1" and reg: "ById dc x \<noteq> None"
    and len: "length (defs dc) = Suc (length (defs dc0))" using run by simp_all
  have acc: "write_throughs dc = write_throughs dc0 + creations ds sched ?cfg
                 + refreshes ds sched ?cfg"
    and cnt: "done_count (calls ms) + creations ds sched ?cfg
                 + refreshes ds sched ?cfg \<le> done_count ths"
    using run_schedule_account [of ds sched ?cfg] run by simp_all
  have "length (fst (run_schedule ds sched ?cfg)) = length (calls ms)" by simp
  hence "length ths = length ms" unfolding run by (simp add: calls_def)
  hence "done_count ths \<le> length ms" using done_count_le [of ths] by simp
  hence most: "1 + refreshes ds sched ?cfg \<le> length ms" using cnt cr by linarith
  have one: "write_throughs dc = write_throughs dc0 + 1 \<and> ById dc x = Some (length (defs dc0))"
    if win: "within_window ms"
      and slot: "list_all (\<lambda>m. 0 \<le> sint (md_Time m) \<and>
             fst (GetOrAdd (ByKey dc0) (md_OrgId m) (md_Name m)) = length (defs dc0)) ms"
  proof -
    have ms': "list_all (\<lambda>m. md_Id m = x \<and> 0 \<le> sint (md_Time m) \<and>
             fst (GetOrAdd (ByKey dc0) (md_OrgId m) (md_Name m)) = length (defs dc0)) ms"
      using ids slot by (auto simp add: list_all_iff)
    have "create_inv x (length (defs dc0)) ms dc0 (run_schedule ds sched ?cfg)"
      using ms' win create_inv_initial [OF new] by (rule create_inv_run)
    hence "create_inv x (length (defs dc0)) ms dc0 (ths, dc)" using run by simp
    thus ?thesis using reg by (auto simp add: create_inv_def)
  qed
  from write_times_unregistered [OF new ids' b, of ds sched]
  have rchain: "successively (\<lambda>a b. word_sless a (b - 21600)) (refresh_times ds sched ?cfg)"
    and wchain: "list_all (\<lambda>m. fst (GetOrAdd (ByKey dc0) (md_OrgId m) (md_Name m))
                     = length (defs dc0)) ms
                 \<Longrightarrow> successively (\<lambda>a b. word_sless a (b - 21600)) (write_times ds sched ?cfg)"
    by (simp_all add: a)
  have rset: "\<forall>t\<in>set (refresh_times ds sched ?cfg). - (2 ^ 63) + 21600 \<le> sint t"
    and wset: "\<forall>t\<in>set (write_times ds sched ?cfg). - (2 ^ 63) + 21600 \<le> sint t"
    if "list_all (\<lambda>m. - (2 ^ 63) + 21600 \<le> sint (md_Time m)) ms"
    using that refresh_times_subset [of ds sched ?cfg] write_times_subset [of ds sched ?cfg]
    by (auto simp add: a list_all_iff)
  have rgap: "sorted_wrt (\<lambda>a b. sint a + 21600 < sint b) (refresh_times ds sched ?cfg)"
    if "list_all (\<lambda>m. - (2 ^ 63) + 21600 \<le> sint (md_Time m)) ms"
    using rchain rset [OF that] by (rule spaced_if_successively_stale)
  have wgap: "sorted_wrt (\<lambda>a b. sint a + 21600 < sint b) (write_times ds sched ?cfg)"
    if "list_all (\<lambda>m. fst (GetOrAdd (ByKey dc0) (md_OrgId m) (md_Name m))
                     = length (defs dc0)) ms"
      and "list_all (\<lambda>m. - (2 ^ 63) + 21600 \<le> sint (md_Time m)) ms"
    using wchain [OF that(1)] wset [OF that(2)] by (rule spaced_if_successively_stale)
  have wlen: "length (write_times ds sched ?cfg) = 1 + refreshes ds sched ?cfg"
    using cr by (simp add: write_times_length)
  have rlen: "length (refresh_times ds sched ?cfg) = refreshes ds sched ?cfg"
    by (rule refresh_times_length)
  show ?thesis
    using cr reg len acc most one rchain wchain rgap wgap wlen rlen by simp
qed

theorem concurrent_create_once_witness:
  "(let ds = \<lparr> GetMetrics = (\<lambda>c st. (([], [], None), st)),
               IndexMetric = (\<lambda>m st. (None, Suc st)) \<rparr>;
        m1 = \<lparr> md_Id = ''abc'', md_OrgId = 1, md_Name = ''host.cpu'', md_Time = 1000,
               md_Meta = () \<rparr>;
        m2 = m1\<lparr>md_Time := 40000\<rparr>;
        m3 = m1\<lparr>md_Time := 40001\<rparr>;
        m4 = m1\<lparr>md_Time := 1001\<rparr>;
        cache = \<lparr> defs = [], ById = [''abc'' \<mapsto> 0],
                  ByKey = \<lparr> names = [(1, ''host.cpu'')], refs = [(1, 0)] \<rparr>,
                  defsStore = (0 :: nat), metricsToEsOK = 0, metricsToEsFail = 0, logged = [] \<rparr>
    in ById (empty_cache 0 :: (unit, nat) DefCache) ''abc'' = None \<and>
       run_schedule ds [0, 0, 1, 2, 1, 2, 1, 2] (calls [m1, m2, m3], empty_cache 0)
         = ([(m1, Done), (m2, Done), (m3, Done)],
            cache\<lparr> defs := [MetricDefinitionFromMetricData m2], defsStore := 2,
                   metricsToEsOK := 2 \<rparr>) \<and>
       returned [(m1, Done), (m2, Done), (m3, Done)] \<and>
       creations ds [0, 0, 1, 2, 1, 2, 1, 2] (calls [m1, m2, m3], empty_cache 0) = 1 \<and>
       refreshes ds [0, 0, 1, 2, 1, 2, 1, 2] (calls [m1, m2, m3], empty_cache 0) = 1 \<and>
       refresh_times ds [0, 0, 1, 2, 1, 2, 1, 2] (calls [m1, m2, m3], empty_cache 0) = [40000] \<and>
       write_times ds [0, 0, 1, 2, 1, 2, 1, 2] (calls [m1, m2, m3], empty_cache 0)
         = [1000, 40000] \<and>
       sorted_wrt (\<lambda>a b. sint a + 21600 < sint b)
         (write_times ds [0, 0, 1, 2, 1, 2, 1, 2] (calls [m1, m2, m3], empty_cache 0)) \<and>
       within_window [m1, m4] \<and>
       run_schedule ds [0, 1, 1, 0] (calls [m1, m4], empty_cache 0)
         = ([(m1, Done), (m4, Done)],
            cache\<lparr> defs := [MetricDefinitionFromMetricData m4], defsStore := 1,
                   metricsToEsOK := 1 \<rparr>) \<and>
       write_throughs (cache\<lparr> defs := [MetricDefinitionFromMetricData m4], defsStore := 1,
                              metricsToEsOK := 1 \<rparr>)
         = write_throughs (empty_cache 0 :: (unit, nat) DefCache) + 1)"
proof -
  let ?ds = "\<lparr> GetMetrics = (\<lambda>c st. (([], [], None), st)),
               IndexMetric = (\<lambda>m st. (None, Suc st)) \<rparr> :: (unit, nat) Defs"
  let ?a = "\<lparr> md_Id = ''abc'', md_OrgId = 1, md_Name = ''host.cpu'', md_Time = 1000,
               md_Meta = () \<rparr>"
  let ?b = "?a\<lparr>md_Time := 40000\<rparr>"
  let ?c = "?a\<lparr>md_Time := 40001\<rparr>"
  let ?e = "?a\<lparr>md_Time := 1001\<rparr>"
  let ?cache = "\<lparr> defs = [], ById = [''abc'' \<mapsto> 0],
                  ByKey = \<lparr> names = [(1, ''host.cpu'')], refs = [(1, 0)] \<rparr>,
                  defsStore = (0 :: nat), metricsToEsOK = 0, metricsToEsFail = 0, logged = [] \<rparr>"
  let ?fin = "?cache\<lparr> defs := [MetricDefinitionFromMetricData ?b], defsStore := 2,
                       metricsToEsOK := 2 \<rparr>"
  let ?one = "?cache\<lparr> defs := [MetricDefinitionFromMetricData ?e], defsStore := 1,
                       metricsToEsOK := 1 \<rparr>"
  let ?init = "empty_cache 0 :: (unit, nat) DefCache"
  let ?sched = "[0, 0, 1, 2, 1, 2, 1, 2] :: nat list"
  note ev = sched_step_0 sched_step_Suc calls_def Add_update_def Add_create_def stale_def
          addToES_def index_and_append_def GetOrAdd_def AddRef_def idx_New_def empty_cache_def
          MetricDefinitionFromMetricData_def numeral_2_eq_2
  have new: "ById ?init ''abc'' = None" by (simp add: empty_cache_def)
  have ne: "[?a, ?b, ?c] \<noteq> []" and ne2: "[?a, ?e] \<noteq> []" by simp_all
  have ids: "list_all (\<lambda>m. md_Id m = ''abc'') [?a, ?b, ?c]"
    and ids2: "list_all (\<lambda>m. md_Id m = ''abc'') [?a, ?e]" by simp_all
  have run: "run_schedule ?ds ?sched (calls [?a, ?b, ?c], ?init)
               = ([(?a, Done), (?b, Done), (?c, Done)], ?fin)"
    by (simp add: ev)
  have run2: "run_schedule ?ds [0, 1, 1, 0] (calls [?a, ?e], ?init)
               = ([(?a, Done), (?e, Done)], ?one)"
    by (simp add: ev)
  have ret: "returned [(?a, Done), (?b, Done), (?c, Done)]"
    and ret2: "returned [(?a, Done), (?e, Done)]" by (simp_all add: returned_def)
  have rf: "refreshes ?ds ?sched (calls [?a, ?b, ?c], ?init) = 1"
    by (simp add: refreshing_def ev)
  have rt: "refresh_times ?ds ?sched (calls [?a, ?b, ?c], ?init) = [40000]"
    by (simp add: refreshing_def ev)
  have wt: "write_times ?ds ?sched (calls [?a, ?b, ?c], ?init) = [1000, 40000]"
    by (simp add: refreshing_def creating_def ev)
  have win: "within_window [?a, ?e]" by (simp add: within_window_def)
  have nowrap: "list_all (\<lambda>m. - (2 ^ 63) + 21600 \<le> sint (md_Time m)) [?a, ?b, ?c]" by simp
  have next_slot: "list_all (\<lambda>m. fst (GetOrAdd (ByKey ?init) (md_OrgId m) (md_Name m))
                     = length (defs ?init)) [?a, ?b, ?c]"
    by (simp add: empty_cache_def GetOrAdd_def idx_New_def)
  have slot2: "list_all (\<lambda>m. 0 \<le> sint (md_Time m) \<and>
             fst (GetOrAdd (ByKey ?init) (md_OrgId m) (md_Name m)) = length (defs ?init)) [?a, ?e]"
    by (simp add: empty_cache_def GetOrAdd_def idx_New_def)
  note thm1 = concurrent_create_once [OF new ne ids run ret]
  have first: "creations ?ds ?sched (calls [?a, ?b, ?c], ?init) = 1"
    using thm1 by (rule conjunct1)
  note ninth = thm1 [THEN conjunct2, THEN conjunct2, THEN conjunct2, THEN conjunct2,
      THEN conjunct2, THEN conjunct2, THEN conjunct2, THEN conjunct2, THEN conjunct1]
  note chain = ninth [THEN mp, OF next_slot]
  have spaced: "sorted_wrt (\<lambda>a b. sint a + 21600 < sint b)
                   (write_times ?ds ?sched (calls [?a, ?b, ?c], ?init))"
    using chain [THEN conjunct2, THEN conjunct2, THEN mp, OF nowrap] .
  note thm2 = concurrent_create_once [OF new ne2 ids2 run2 ret2]
  note tenth = thm2 [THEN conjunct2, THEN conjunct2, THEN conjunct2, THEN conjunct2,
      THEN conjunct2, THEN conjunct2, THEN conjunct2, THEN conjunct2, THEN conjunct2]
  have second: "write_throughs ?one = write_throughs ?init + 1"
    using tenth [THEN mp, OF conjI [OF win slot2], THEN conjunct1] .
  show ?thesis
    unfolding Let_def
    by (intro conjI) (rule new run ret first rf rt wt spaced win run2 second)+
qed

subsection \<open>Concurrent calls with a registered id and a stale definition\<close>

lemma refresh_inv_length:
  "refresh_inv k ms dc0 (ths, dc) \<Longrightarrow> length (defs dc) = length (defs dc0)"
  by (auto simp add: refresh_inv_def list_ex_iff)

text \<open>A call moves on without returning and without touching the state.\<close>

lemma refresh_inv_move:
  assumes inv: "refresh_inv k ms dc0 (ths, dc)"
      and n: "n < length ths" and t: "ths ! n = (m, p)" and p: "p \<noteq> Done"
      and p': "p' = Known k \<or> p' = Update k"
  shows "refresh_inv k ms dc0 (ths[n := (m, p')], dc)"
proof -
  have a: "map fst (ths[n := (m, p')]) = ms"
    using inv map_fst_update_same [OF n t] by (simp add: refresh_inv_def)
  have b: "list_all (\<lambda>t. snd t = Start \<or> snd t = Known k \<or> snd t = Update k \<or> snd t = Done)
             (ths[n := (m, p')])"
    using inv p' by (intro list_all_update) (auto simp add: refresh_inv_def)
  have c: "done_count (ths[n := (m, p')]) = done_count ths"
    using done_count_update [OF n, of "(m, p')"] t p p' by auto
  have d: "list_all (\<lambda>t. snd t \<noteq> Done \<or>
             sint (md_Time (fst t)) \<le> sint (def_LastUpdate (defs dc ! k)) + 21600)
             (ths[n := (m, p')])"
    using inv p' by (intro list_all_update) (auto simp add: refresh_inv_def)
  show ?thesis using inv a b c d by (simp add: refresh_inv_def)
qed

text \<open>A call returns without writing: the slot is fresh for it.\<close>

lemma refresh_inv_return:
  assumes inv: "refresh_inv k ms dc0 (ths, dc)"
      and n: "n < length ths" and t: "ths ! n = (m, p)"
      and old: "sint (def_LastUpdate (defs dc0 ! k)) + 21600 < sint (md_Time m)"
      and fresh: "sint (md_Time m) \<le> sint (def_LastUpdate (defs dc ! k)) + 21600"
  shows "refresh_inv k ms dc0 (ths[n := (m, Done)], dc)"
proof -
  have a: "map fst (ths[n := (m, Done)]) = ms"
    using inv map_fst_update_same [OF n t] by (simp add: refresh_inv_def)
  have b: "list_all (\<lambda>t. snd t = Start \<or> snd t = Known k \<or> snd t = Update k \<or> snd t = Done)
             (ths[n := (m, Done)])"
    using inv by (intro list_all_update) (auto simp add: refresh_inv_def)
  have c: "defs dc \<noteq> defs dc0" using old fresh by auto
  have d: "list_all (\<lambda>t. snd t \<noteq> Done \<or>
             sint (md_Time (fst t)) \<le> sint (def_LastUpdate (defs dc ! k)) + 21600)
             (ths[n := (m, Done)])"
    using inv fresh by (intro list_all_update) (auto simp add: refresh_inv_def)
  show ?thesis using inv a b c d by (simp add: refresh_inv_def)
qed

text \<open>A call writes: the slot was stale for it, and now holds its definition.\<close>

lemma refresh_inv_write:
  assumes inv: "refresh_inv k ms dc0 (ths, dc)"
      and n: "n < length ths" and t: "ths ! n = (m, p)" and kr: "k < length (defs dc0)"
      and st: "sint (def_LastUpdate (defs dc ! k)) < sint (md_Time m) - 21600"
      and d': "defs dc' = (defs dc)[k := MetricDefinitionFromMetricData m]"
      and i': "ById dc' = ById dc" "ByKey dc' = ByKey dc"
      and w': "write_throughs dc' = Suc (write_throughs dc)"
  shows "refresh_inv k ms dc0 (ths[n := (m, Done)], dc')"
proof -
  have mm: "m \<in> set ms"
  proof -
    have "map fst ths ! n = m" using n t by simp
    moreover have "map fst ths = ms" using inv by (simp add: refresh_inv_def)
    ultimately show ?thesis using n by (metis length_map nth_mem)
  qed
  have a: "map fst (ths[n := (m, Done)]) = ms"
    using inv map_fst_update_same [OF n t] by (simp add: refresh_inv_def)
  have b: "list_all (\<lambda>t. snd t = Start \<or> snd t = Known k \<or> snd t = Update k \<or> snd t = Done)
             (ths[n := (m, Done)])"
    using inv by (intro list_all_update) (auto simp add: refresh_inv_def)
  have len: "length (defs dc) = length (defs dc0)" using inv by (rule refresh_inv_length)
  have slot: "defs dc' = (defs dc0)[k := MetricDefinitionFromMetricData m]"
    using inv d' by (auto simp add: refresh_inv_def list_ex_iff)
  have lu: "def_LastUpdate (defs dc' ! k) = md_Time m"
    using slot kr by simp
  have c: "list_ex (\<lambda>m. defs dc' = (defs dc0)[k := MetricDefinitionFromMetricData m]) ms"
    using slot mm by (auto simp add: list_ex_iff)
  have w: "write_throughs dc0 < write_throughs dc'"
    using inv w' by (auto simp add: refresh_inv_def)
  have e: "\<not> within_window ms \<or> write_throughs dc' = Suc (write_throughs dc0)"
  proof -
    consider (init) "write_throughs dc = write_throughs dc0"
      | (refreshed) ma where "ma \<in> set ms"
          "defs dc = (defs dc0)[k := MetricDefinitionFromMetricData ma]"
      using inv by (auto simp add: refresh_inv_def list_ex_iff)
    thus ?thesis
    proof cases
      case init
      thus ?thesis using w' by simp
    next
      case refreshed
      have "def_LastUpdate (defs dc ! k) = md_Time ma" using refreshed(2) kr by simp
      hence "sint (md_Time ma) + 21600 < sint (md_Time m)" using st by simp
      hence "\<not> sint (md_Time m) \<le> sint (md_Time ma) + 21600" by simp
      hence "\<not> within_window ms"
        using refreshed(1) mm unfolding within_window_def list_all_iff by blast
      thus ?thesis by simp
    qed
  qed
  have old_done: "list_all (\<lambda>t. snd t \<noteq> Done \<or>
             sint (md_Time (fst t)) \<le> sint (def_LastUpdate (defs dc' ! k)) + 21600) ths"
    using inv st by (auto simp add: refresh_inv_def list_all_iff lu)
  have d: "list_all (\<lambda>t. snd t \<noteq> Done \<or>
             sint (md_Time (fst t)) \<le> sint (def_LastUpdate (defs dc' ! k)) + 21600)
             (ths[n := (m, Done)])"
    using old_done by (rule list_all_update) (simp add: lu)
  show ?thesis using inv a b c d e w i' by (simp add: refresh_inv_def)
qed

lemma refresh_inv_step:
  assumes reg: "ById dc0 x = Some k" and kr: "k < length (defs dc0)"
      and ms: "list_all (\<lambda>m. md_Id m = x \<and>
                 sint (def_LastUpdate (defs dc0 ! k)) + 21600 < sint (md_Time m)) ms"
      and inv: "refresh_inv k ms dc0 cfg"
  shows "refresh_inv k ms dc0 (sched_step ds n cfg)"
proof (cases "n < length (fst cfg)")
  case False
  then show ?thesis using inv by (simp add: sched_step_outside)
next
  case True
  obtain ths dc where cfg: "cfg = (ths, dc)" by (cases cfg)
  obtain m p where t: "ths ! n = (m, p)" by (cases "ths ! n")
  have n: "n < length ths" using True cfg by simp
  have inv': "refresh_inv k ms dc0 (ths, dc)" using inv cfg by simp
  have mm: "m \<in> set ms"
  proof -
    have "map fst ths ! n = m" using n t by simp
    moreover have "map fst ths = ms" using inv' by (simp add: refresh_inv_def)
    ultimately show ?thesis using n by (metis length_map nth_mem)
  qed
  have idm: "md_Id m = x"
    and old: "sint (def_LastUpdate (defs dc0 ! k)) + 21600 < sint (md_Time m)"
    using ms mm by (auto simp add: list_all_iff)
  have "- (2 ^ 63) \<le> sint (def_LastUpdate (defs dc0 ! k))"
    using sint_ge [of "def_LastUpdate (defs dc0 ! k)"] by simp
  hence nowrap: "- (2 ^ 63) + 21600 \<le> sint (md_Time m)" using old by linarith
  note stale_m = stale_iff [OF nowrap]
  have len: "length (defs dc) = length (defs dc0)" using inv' by (rule refresh_inv_length)
  have kd: "k < length (defs dc)" using len kr by simp
  have byid: "ById dc (md_Id m) = Some k"
    using inv' reg idm by (simp add: refresh_inv_def)
  have "snd (ths ! n) = Start \<or> snd (ths ! n) = Known k \<or> snd (ths ! n) = Update k
          \<or> snd (ths ! n) = Done"
    using inv' n by (simp add: refresh_inv_def list_all_length)
  hence p: "p = Start \<or> p = Known k \<or> p = Update k \<or> p = Done" using t by simp
  note st = sched_step_inside [OF n t, of ds dc]
  let ?stale = "sint (def_LastUpdate (defs dc ! k)) < sint (md_Time m) - 21600"
  from p show ?thesis
  proof (elim disjE)
    assume ps: "p = Start"
    have "sched_step ds n cfg = (ths[n := (m, Known k)], dc)"
      unfolding cfg st using ps byid by simp
    thus ?thesis using refresh_inv_move [OF inv' n t, of "Known k"] ps by simp
  next
    assume pk: "p = Known k"
    show ?thesis
    proof (cases ?stale)
      case True
      have "sched_step ds n cfg = (ths[n := (m, Update k)], dc)"
        unfolding cfg st using pk kd True by (simp add: stale_m)
      thus ?thesis using refresh_inv_move [OF inv' n t, of "Update k"] pk by simp
    next
      case False
      have "sched_step ds n cfg = (ths[n := (m, Done)], dc)"
        unfolding cfg st using pk kd False by (simp add: stale_m)
      moreover have "sint (md_Time m) \<le> sint (def_LastUpdate (defs dc ! k)) + 21600"
        using False by linarith
      ultimately show ?thesis using refresh_inv_return [OF inv' n t old] by simp
    qed
  next
    assume pu: "p = Update k"
    let ?mdef = "MetricDefinitionFromMetricData m"
    show ?thesis
    proof (cases ?stale)
      case True
      let ?dc = "(addToES ds ?mdef dc)\<lparr>defs := (defs dc)[k := ?mdef]\<rparr>"
      have "sched_step ds n cfg = (ths[n := (m, Done)], ?dc)"
        unfolding cfg st using pu kd True by (simp add: Add_update_def stale_m Let_def)
      moreover have "refresh_inv k ms dc0 (ths[n := (m, Done)], ?dc)"
        using inv' n t kr True by (rule refresh_inv_write) simp_all
      ultimately show ?thesis by simp
    next
      case False
      have "sched_step ds n cfg = (ths[n := (m, Done)], dc)"
        unfolding cfg st using pu kd False by (simp add: Add_update_def stale_m)
      moreover have "sint (md_Time m) \<le> sint (def_LastUpdate (defs dc ! k)) + 21600"
        using False by linarith
      ultimately show ?thesis using refresh_inv_return [OF inv' n t old] by simp
    qed
  next
    assume pd: "p = Done"
    have "ths[n := (m, Done)] = ths" using t pd n by (metis list_update_id)
    hence "sched_step ds n cfg = cfg" unfolding cfg st using pd by simp
    thus ?thesis using inv by simp
  qed
qed

lemma refresh_inv_run:
  assumes "ById dc0 x = Some k" and "k < length (defs dc0)"
      and "list_all (\<lambda>m. md_Id m = x \<and>
                 sint (def_LastUpdate (defs dc0 ! k)) + 21600 < sint (md_Time m)) ms"
      and "refresh_inv k ms dc0 cfg"
  shows "refresh_inv k ms dc0 (run_schedule ds sched cfg)"
  using assms(4)
proof (induction sched arbitrary: cfg)
  case Nil
  then show ?case by simp
next
  case (Cons n ns)
  have "refresh_inv k ms dc0 (sched_step ds n cfg)"
    using assms(1-3) Cons.prems by (rule refresh_inv_step)
  from Cons.IH [OF this] show ?case by simp
qed

lemma refresh_inv_initial: "refresh_inv k ms dc0 (calls ms, dc0)"
proof -
  have a: "map fst (calls ms) = ms" by (simp add: calls_def comp_def)
  have b: "list_all (\<lambda>t. snd t = Start) (calls ms)" by (simp add: calls_def list_all_iff)
  have c: "done_count (calls ms) = 0" by (simp add: calls_def done_count_def)
  show ?thesis using a b c by (auto simp add: refresh_inv_def list_all_iff)
qed

text \<open>
  C2, as amended. Calls of \<^verbatim>\<open>Add\<close> that all carry one registered external id, each with
  a timestamp more than 21600 seconds after the stored last-update, run
  concurrently under any schedule. When all of them have returned, at least one
  write-through was made and at most one per call; exactly one when no timestamp
  is more than 21600 seconds after another. The slot holds the definition built by
  one of the calls, and no call's timestamp is more than 21600 seconds after its
  last-update; the indexes are unchanged.
\<close>

theorem concurrent_refresh:
  assumes reg: "ById dc0 x = Some k" and kr: "k < length (defs dc0)" and ne: "ms \<noteq> []"
      and ms: "list_all (\<lambda>m. md_Id m = x \<and>
                 sint (def_LastUpdate (defs dc0 ! k)) + 21600 < sint (md_Time m)) ms"
      and run: "run_schedule ds sched (calls ms, dc0) = (ths, dc)" and ret: "returned ths"
  shows "write_throughs dc0 < write_throughs dc \<and>
         write_throughs dc \<le> write_throughs dc0 + length ms \<and>
         (within_window ms \<longrightarrow> write_throughs dc = write_throughs dc0 + 1) \<and>
         list_ex (\<lambda>m. defs dc = (defs dc0)[k := MetricDefinitionFromMetricData m]) ms \<and>
         list_all (\<lambda>m. sint (md_Time m) \<le> sint (def_LastUpdate (defs dc ! k)) + 21600) ms \<and>
         ById dc = ById dc0 \<and> ByKey dc = ByKey dc0"
proof -
  have inv: "refresh_inv k ms dc0 (ths, dc)"
    using refresh_inv_run [OF reg kr ms refresh_inv_initial, of ds sched] run by simp
  have fst: "map fst ths = ms" using inv by (simp add: refresh_inv_def)
  have len: "length ths = length ms" using fst by (metis length_map)
  have dn: "done_count ths = length ms" using returned_done_count [OF ret] len by simp
  hence pos: "0 < done_count ths" using ne by simp
  have second: "list_ex (\<lambda>m. defs dc = (defs dc0)[k := MetricDefinitionFromMetricData m]) ms \<and>
        write_throughs dc0 < write_throughs dc \<and>
        (\<not> within_window ms \<or> write_throughs dc = Suc (write_throughs dc0))"
    using inv pos by (auto simp add: refresh_inv_def)
  have "list_all (\<lambda>t. sint (md_Time (fst t)) \<le> sint (def_LastUpdate (defs dc ! k)) + 21600) ths"
    using inv ret by (auto simp add: refresh_inv_def returned_def list_all_iff)
  hence "list_all (\<lambda>m. sint (md_Time m) \<le> sint (def_LastUpdate (defs dc ! k)) + 21600) (map fst ths)"
    by (simp add: list_all_iff)
  hence near: "list_all (\<lambda>m. sint (md_Time m) \<le> sint (def_LastUpdate (defs dc ! k)) + 21600) ms"
    using fst by simp
  have acc: "write_throughs dc = write_throughs dc0 + creations ds sched (calls ms, dc0)
                 + refreshes ds sched (calls ms, dc0)"
    and cnt: "done_count (calls ms) + creations ds sched (calls ms, dc0)
                 + refreshes ds sched (calls ms, dc0) \<le> done_count ths"
    using run_schedule_account [of ds sched "(calls ms, dc0)"] run by simp_all
  have upper: "write_throughs dc \<le> write_throughs dc0 + length ms"
    using acc cnt dn by linarith
  have idx: "ById dc = ById dc0" "ByKey dc = ByKey dc0"
    using inv by (simp_all add: refresh_inv_def)
  show ?thesis using second near upper idx by auto
qed

theorem concurrent_refresh_witness:
  "(let ds = \<lparr> GetMetrics = (\<lambda>c st. (([], [], None), st)),
               IndexMetric = (\<lambda>m st. (None, Suc st)) \<rparr>;
        d = \<lparr> def_Id = ''abc'', def_OrgId = 1, def_Name = ''host.cpu'',
              def_LastUpdate = 1000, def_Meta = () \<rparr>;
        dc0 = \<lparr> defs = [d], ById = [''abc'' \<mapsto> 0],
                ByKey = \<lparr> names = [(1, ''host.cpu'')], refs = [(1, 0)] \<rparr>, defsStore = (1 :: nat),
                metricsToEsOK = 1, metricsToEsFail = 0, logged = [] \<rparr>;
        m1 = \<lparr> md_Id = ''abc'', md_OrgId = 1, md_Name = ''host.cpu'', md_Time = 31000,
               md_Meta = () \<rparr>;
        m2 = m1\<lparr>md_Time := 41000\<rparr>;
        dc = dc0\<lparr> defs := [MetricDefinitionFromMetricData m1], defsStore := 2, metricsToEsOK := 2 \<rparr>
    in ById dc0 ''abc'' = Some 0 \<and> 0 < length (defs dc0) \<and> [m1, m2] \<noteq> [] \<and>
       list_all (\<lambda>m. md_Id m = ''abc'' \<and>
                 sint (def_LastUpdate (defs dc0 ! 0)) + 21600 < sint (md_Time m)) [m1, m2] \<and>
       run_schedule ds [0, 1, 0, 1, 0, 1] (calls [m1, m2], dc0) = ([(m1, Done), (m2, Done)], dc) \<and>
       returned [(m1, Done), (m2, Done)] \<and>
       within_window [m1, m2] \<and>
       write_throughs dc = write_throughs dc0 + 1 \<and>
       list_ex (\<lambda>m. defs dc = (defs dc0)[0 := MetricDefinitionFromMetricData m]) [m1, m2] \<and>
       list_all (\<lambda>m. sint (md_Time m) \<le> sint (def_LastUpdate (defs dc ! 0)) + 21600) [m1, m2])"
proof -
  let ?ds = "\<lparr> GetMetrics = (\<lambda>c st. (([], [], None), st)),
               IndexMetric = (\<lambda>m st. (None, Suc st)) \<rparr> :: (unit, nat) Defs"
  let ?d = "\<lparr> def_Id = ''abc'', def_OrgId = 1, def_Name = ''host.cpu'',
              def_LastUpdate = 1000, def_Meta = () \<rparr>"
  let ?init = "\<lparr> defs = [?d], ById = [''abc'' \<mapsto> 0],
                ByKey = \<lparr> names = [(1, ''host.cpu'')], refs = [(1, 0)] \<rparr>, defsStore = (1 :: nat),
                metricsToEsOK = 1, metricsToEsFail = 0, logged = [] \<rparr>"
  let ?m1 = "\<lparr> md_Id = ''abc'', md_OrgId = 1, md_Name = ''host.cpu'', md_Time = 31000,
               md_Meta = () \<rparr>"
  let ?m2 = "?m1\<lparr>md_Time := 41000\<rparr>"
  let ?fin = "?init\<lparr> defs := [MetricDefinitionFromMetricData ?m1], defsStore := 2,
                    metricsToEsOK := 2 \<rparr>"
  have reg: "ById ?init ''abc'' = Some 0" by simp
  have kr: "0 < length (defs ?init)" by simp
  have ne: "[?m1, ?m2] \<noteq> []" by simp
  have ms: "list_all (\<lambda>m. md_Id m = ''abc'' \<and>
                 sint (def_LastUpdate (defs ?init ! 0)) + 21600 < sint (md_Time m)) [?m1, ?m2]"
    by simp
  have run: "run_schedule ?ds [0, 1, 0, 1, 0, 1] (calls [?m1, ?m2], ?init)
               = ([(?m1, Done), (?m2, Done)], ?fin)"
    by (simp add: sched_step_0 sched_step_Suc calls_def Add_update_def stale_def
          addToES_def MetricDefinitionFromMetricData_def)
  have ret: "returned [(?m1, Done), (?m2, Done)]" by (simp add: returned_def)
  have win: "within_window [?m1, ?m2]" by (simp add: within_window_def)
  from concurrent_refresh [OF reg kr ne ms run ret] win
  have "write_throughs ?fin = write_throughs ?init + 1 \<and>
       list_ex (\<lambda>m. defs ?fin = (defs ?init)[0 := MetricDefinitionFromMetricData m]) [?m1, ?m2] \<and>
       list_all (\<lambda>m. sint (md_Time m) \<le> sint (def_LastUpdate (defs ?fin ! 0)) + 21600) [?m1, ?m2]"
    by blast
  thus ?thesis using reg kr ms run ret win by (simp add: Let_def)
qed

text \<open>
  C2, as stated, fails: not always exactly one write-through, and not always the
  greatest timestamp. With last-update 1000 stored, the calls with timestamps 31000
  and 61000, one after the other, write through twice. The calls with timestamps
  31000 and 41000 both pass the first staleness test; the first then writes 31000
  under the lock, the second finds the slot fresh and returns, and the stored
  last-update stays 31000, below 41000.
\<close>

theorem concurrent_refresh_counterexample:
  "(let ds = \<lparr> GetMetrics = (\<lambda>c st. (([], [], None), st)),
               IndexMetric = (\<lambda>m st. (None, Suc st)) \<rparr>;
        d = \<lparr> def_Id = ''abc'', def_OrgId = 1, def_Name = ''host.cpu'',
              def_LastUpdate = 1000, def_Meta = () \<rparr>;
        dc0 = \<lparr> defs = [d], ById = [''abc'' \<mapsto> 0],
                ByKey = \<lparr> names = [(1, ''host.cpu'')], refs = [(1, 0)] \<rparr>, defsStore = (1 :: nat),
                metricsToEsOK = 1, metricsToEsFail = 0, logged = [] \<rparr>;
        m1 = \<lparr> md_Id = ''abc'', md_OrgId = 1, md_Name = ''host.cpu'', md_Time = 31000,
               md_Meta = () \<rparr>;
        m2 = m1\<lparr>md_Time := 41000\<rparr>;
        m3 = m1\<lparr>md_Time := 61000\<rparr>
    in run_schedule ds [0, 0, 0, 1, 1, 1] (calls [m1, m3], dc0)
         = ([(m1, Done), (m3, Done)],
            dc0\<lparr> defs := [MetricDefinitionFromMetricData m3], defsStore := 3, metricsToEsOK := 3 \<rparr>) \<and>
       write_throughs (dc0\<lparr> defs := [MetricDefinitionFromMetricData m3], defsStore := 3,
                             metricsToEsOK := 3 \<rparr>) = write_throughs dc0 + 2 \<and>
       run_schedule ds [0, 1, 0, 1] (calls [m1, m2], dc0)
         = ([(m1, Update 0), (m2, Update 0)], dc0) \<and>
       run_schedule ds [0, 1, 0, 1, 0, 1] (calls [m1, m2], dc0)
         = ([(m1, Done), (m2, Done)],
            dc0\<lparr> defs := [MetricDefinitionFromMetricData m1], defsStore := 2, metricsToEsOK := 2 \<rparr>) \<and>
       def_LastUpdate (MetricDefinitionFromMetricData m1) = 31000 \<and>
       sint (md_Time m1) < sint (md_Time m2))"
  by (simp add: Let_def sched_step_0 sched_step_Suc calls_def Add_update_def stale_def
        addToES_def write_throughs_def MetricDefinitionFromMetricData_def)

end
